theory Spec2Isabelle
  imports Main "HOL-Library.Word"
begin

unbundle bit_operations_syntax

section \<open>Machine types\<close>

text \<open>
  The kernel is C for a RISC-V target. \<open>uint32_t\<close> is a 32-bit word with wrapping
  arithmetic, \<open>uint64_t\<close> and MMIO addresses are 64-bit words. A C \<open>int\<close> that only ever
  holds small values (loop counters, the result of \<open>ffs\<close>) is an \<open>int\<close> or a \<open>nat\<close>.
\<close>

type_synonym u32 = "32 word"
type_synonym u64 = "64 word"

section \<open>The bit-scan helper (lib/ffs.c)\<close>

text \<open>
  \<open>int ffs(int i)\<close>: the argument is a 32-bit two's complement value, so \<open>>>\<close> on it is the
  arithmetic shift \<open>signed_drop_bit\<close>. The local \<open>n\<close> stays between 1 and 32. Each \<open>if\<close> of
  the source updates the pair \<open>(n, i)\<close>; the last one only updates \<open>n\<close>.
\<close>

definition ffs :: "u32 \<Rightarrow> int" where
  "ffs i0 =
     (if i0 = 0 then 0
      else
        let (n, i) = (1::int, i0);
            (n, i) = (if i AND 0xffff = 0 then (n + 16, signed_drop_bit 16 i) else (n, i));
            (n, i) = (if i AND 0xff = 0 then (n + 8, signed_drop_bit 8 i) else (n, i));
            (n, i) = (if i AND 0xf = 0 then (n + 4, signed_drop_bit 4 i) else (n, i));
            (n, i) = (if i AND 0x3 = 0 then (n + 2, signed_drop_bit 2 i) else (n, i));
            n = (if i AND 0x1 = 0 then n + 1 else n)
        in n)"


section \<open>The IMSIC driver (drivers/irqchip/riscv-imsic.c)\<close>

subsection \<open>Constants and data (irqchip/riscv-imsic.h)\<close>

definition IMSIC_MAX_IDS :: u32 where "IMSIC_MAX_IDS = 256"
definition IMSIC_REG_SETEIPNUM :: u32 where "IMSIC_REG_SETEIPNUM = 0x000"
definition IMSIC_REG_CLREIPNUM :: u32 where "IMSIC_REG_CLREIPNUM = 0x004"
definition IMSIC_REG_EITHRESHOLD :: u32 where "IMSIC_REG_EITHRESHOLD = 0x070"
definition IMSIC_REG_EIP_BASE :: u32 where "IMSIC_REG_EIP_BASE = 0x080"
definition IMSIC_REG_EIE_BASE :: u32 where "IMSIC_REG_EIE_BASE = 0x0C0"

text \<open>
  The driver has one static \<open>struct imsic_file\<close> and one static \<open>struct imsic_data\<close>. A
  pointer to either is \<open>NULL\<close> or the address of that static object, so the two pointer
  types are two-valued. An IRQ domain is a handle handed out by the IRQ-domain core (a
  \<open>nat\<close>, with 0 for \<open>NULL\<close>).
\<close>

datatype file_ref = NoFile | PrimaryFile
datatype data_ref = NoData | PrimaryData

record imsic_file =
  base :: u64
  hart_id :: u32
  num_ids :: u32
  pending_bitmap :: u64
  enabled_bitmap :: u64

record imsic_data =
  files :: file_ref
  num_harts :: u32
  num_ids :: u32
  base_ppn :: u64
  domain :: nat
  msi_domain :: nat

text \<open>
  Modelled from the spec: \<open>device/device.h\<close> and \<open>device/resource.h\<close> are not among the
  sources. Of \<open>struct resource\<close> and \<open>struct device\<close> the model keeps what
  \<open>imsic_attach\<close> reads or writes: the two resource members it names, the memory
  resources in index order, the \<open>u32\<close> properties of the device-tree node, and the
  driver-data pointer that \<open>device_set_driver_data\<close> sets.
\<close>

record resource =
  start :: u64
  mapped_addr :: u64

record imsic_device =
  name :: string
  mem_resources :: "resource list"
  properties :: "string \<rightharpoonup> u32"
  driver_data :: data_ref

text \<open>The file-scope statics of the driver.\<close>

record imsic_state =
  primary_imsic_data :: imsic_data
  primary_imsic_file :: imsic_file
  imsic_initialized :: bool

subsection \<open>Device-layer helpers\<close>

text \<open>
  Modelled from the spec: \<open>device_get_resource(dev, RES_TYPE_MEM, index)\<close> and
  \<open>device_get_property_u32(dev, key, default)\<close> belong to the device layer, which is not
  among the sources. The spec has the first return memory resource number \<open>index\<close> or
  nothing when it is absent, and the second return the property, "defaulting to" the
  third argument.
\<close>

definition device_get_resource_mem :: "imsic_device \<Rightarrow> nat \<Rightarrow> resource option" where
  "device_get_resource_mem d idx =
     (if idx < length (mem_resources d) then Some (mem_resources d ! idx) else None)"

definition device_get_property_u32 :: "imsic_device \<Rightarrow> string \<Rightarrow> u32 \<Rightarrow> u32" where
  "device_get_property_u32 d key dflt = (case properties d key of Some v \<Rightarrow> v | None \<Rightarrow> dflt)"

subsection \<open>Attach\<close>

text \<open>
  \<open>imsic_attach\<close>, statement by statement. \<open>imsic_data_zero\<close> is the result of
  \<open>memset(imsic, 0, sizeof( *imsic))\<close>. The answer of \<open>irq_domain_create_linear\<close> for a
  given size is a parameter (0 is \<open>NULL\<close>). Console output is not part of the state. The
  result is the return value, the device and the statics.
\<close>

definition imsic_data_zero :: imsic_data where
  "imsic_data_zero = \<lparr>files = NoFile, num_harts = 0, num_ids = 0, base_ppn = 0, domain = 0, msi_domain = 0\<rparr>"

definition imsic_attach ::
  "(u32 \<Rightarrow> nat) \<Rightarrow> imsic_device \<Rightarrow> imsic_state \<Rightarrow> int \<times> imsic_device \<times> imsic_state" where
  "imsic_attach irq_domain_create_linear d st =
     (if imsic_initialized st then (- 1, d, st)
      else case device_get_resource_mem d 0 of
        None \<Rightarrow> (- 1, d, st)
      | Some res \<Rightarrow>
          let file = primary_imsic_file st;
              file = (if mapped_addr res \<noteq> 0 then file\<lparr>base := mapped_addr res\<rparr>
                      else file\<lparr>base := start res\<rparr>);
              base_phys = start res;
              file = file\<lparr>hart_id := 0\<rparr>;
              file = file\<lparr>imsic_file.num_ids := device_get_property_u32 d ''riscv,num-ids'' IMSIC_MAX_IDS\<rparr>;
              file = file\<lparr>pending_bitmap := 0\<rparr>;
              file = file\<lparr>enabled_bitmap := 0\<rparr>;
              imsic = imsic_data_zero;
              imsic = imsic\<lparr>files := PrimaryFile\<rparr>;
              imsic = imsic\<lparr>num_harts := 1\<rparr>;
              imsic = imsic\<lparr>imsic_data.num_ids := imsic_file.num_ids file\<rparr>;
              imsic = imsic\<lparr>base_ppn := drop_bit 12 base_phys\<rparr>;
              imsic = imsic\<lparr>domain := irq_domain_create_linear (imsic_data.num_ids imsic)\<rparr>;
              st = st\<lparr>primary_imsic_file := file, primary_imsic_data := imsic\<rparr>
          in if domain imsic = 0 then (- 1, d, st)
             else
               let imsic = imsic\<lparr>msi_domain := 0\<rparr>;
                   st = st\<lparr>primary_imsic_data := imsic\<rparr>;
                   d = d\<lparr>driver_data := PrimaryData\<rparr>;
                   st = st\<lparr>imsic_initialized := True\<rparr>
               in (0, d, st))"

subsection \<open>Register access and the top-level handler\<close>

text \<open>
  What the handler does to the outside is a list of events in program order: a call of
  \<open>generic_handle_irq\<close> or a 32-bit MMIO write (address, value). MMIO reads take their
  values from a parameter \<open>mmio_read32\<close>; \<open>irq_find_mapping\<close> is a parameter too.

  The loop of \<open>imsic_handle_irq\<close> is \<open>eip_scan\<close>: it returns the value of \<open>hwirq\<close> after
  the loop. The bound \<open>(num_ids + 31) / 32\<close> is computed in \<open>uint32_t\<close>; the counter \<open>i\<close>
  stays below \<open>2^27\<close>. \<open>i * 32 + ffs(pending) - 1\<close> is computed on integers and converted to
  \<open>uint32_t\<close>; where the C \<open>int\<close> would overflow (only for \<open>num_ids\<close> above \<open>2^31\<close>) that is
  the two's complement result.

  \<open>&imsic->files[0]\<close> is \<open>NULL\<close> when \<open>files\<close> is: the first register access through it
  is then a fault, the result \<open>None\<close>.
\<close>

datatype irq_event = Generic_handle_irq u32 | Mmio_write32 u64 u32

definition imsic_write_reg :: "imsic_file \<Rightarrow> u32 \<Rightarrow> u32 \<Rightarrow> irq_event list" where
  "imsic_write_reg file reg val = [Mmio_write32 (base file + ucast reg) val]"

definition imsic_read_reg :: "(u64 \<Rightarrow> u32) \<Rightarrow> imsic_file \<Rightarrow> u32 \<Rightarrow> u32" where
  "imsic_read_reg mmio_read32 file reg = mmio_read32 (base file + ucast reg)"

definition imsic_clear_pending :: "imsic_file \<Rightarrow> u32 \<Rightarrow> irq_event list" where
  "imsic_clear_pending file ident = imsic_write_reg file IMSIC_REG_CLREIPNUM ident"

function eip_scan :: "(u64 \<Rightarrow> u32) \<Rightarrow> imsic_file \<Rightarrow> u32 \<Rightarrow> nat \<Rightarrow> u32" where
  "eip_scan mmio_read32 file bound i =
     (if i < unat bound then
        (let pending = imsic_read_reg mmio_read32 file (IMSIC_REG_EIP_BASE + of_nat i * 4)
         in if pending \<noteq> 0 then word_of_int (int i * 32 + ffs pending - 1)
            else eip_scan mmio_read32 file bound (i + 1))
      else 0)"
  by pat_completeness auto
termination
  by (relation "measure (\<lambda>(m, f, bound, i). unat bound - i)") auto

declare eip_scan.simps [simp del]


definition imsic_handle_irq ::
  "(u64 \<Rightarrow> u32) \<Rightarrow> (nat \<Rightarrow> u32 \<Rightarrow> u32) \<Rightarrow> imsic_state \<Rightarrow> irq_event list option" where
  "imsic_handle_irq mmio_read32 irq_find_mapping st =
     (let imsic = primary_imsic_data st;
          bound = (imsic_data.num_ids imsic + 31) div 32
      in case files imsic of
           NoFile \<Rightarrow> (if bound = 0 then Some [] else None)
         | PrimaryFile \<Rightarrow>
             (let file = primary_imsic_file st;
                  hwirq = eip_scan mmio_read32 file bound 0
              in if hwirq \<noteq> 0 then
                   (let virq = irq_find_mapping (domain imsic) hwirq
                    in Some ((if virq \<noteq> 0 then [Generic_handle_irq virq] else [])
                             @ imsic_clear_pending file hwirq))
                 else Some []))"

text \<open>Word \<open>k\<close> of the pending bitmap as the handler reads it.\<close>

definition eip_word :: "(u64 \<Rightarrow> u32) \<Rightarrow> imsic_file \<Rightarrow> nat \<Rightarrow> u32" where
  "eip_word mmio_read32 file k = imsic_read_reg mmio_read32 file (IMSIC_REG_EIP_BASE + of_nat k * 4)"


section \<open>The MSI core (kernel/irq/msi.c)\<close>

subsection \<open>Memory\<close>

text \<open>
  The MSI core links descriptors and the per-device registry into one circular,
  doubly-linked list through an embedded \<open>struct list_head\<close>, and it mutates the links
  of whatever node a pointer leads to. Memory is therefore explicit: an address is a
  \<open>nat\<close> (0 is \<open>NULL\<close>), and there is one heap per struct type, from addresses to
  values. The casts \<open>(struct msi_desc * )msi_data->list.next\<close> of the source make the
  \<open>list\<close> member the first member of a descriptor, so a descriptor and its list head
  have the same address; the registry's list head (the sentinel) is named by the
  registry's address.
\<close>

type_synonym addr = nat

record list_head =
  list_next :: addr
  list_prev :: addr

text \<open>
  Modelled from the spec: \<open>irq/msi.h\<close>, which declares \<open>struct msi_desc\<close>,
  \<open>struct msi_device_data\<close> and \<open>MSI_MAX_VECTORS\<close>, and the header of \<open>struct device\<close>
  are not among the sources. The limit is the spec's "\<open>MSI_MAX_VECTORS = 32\<close>". The fields are those
  the code uses; \<open>hwirq\<close> and \<open>irq\<close> are \<open>uint32_t\<close> as the locals they are assigned from;
  the spec calls \<open>refcount\<close> a "non-negative integer" and \<open>num_vectors\<close> a "counter", and
  both are integers here, so that a decrement below zero shows. The \<open>msg\<close> member and the
  lock are left out: no function below reads them, and the model is sequential.
\<close>

record msi_desc =
  dev :: addr
  hwirq :: u32
  irq :: u32
  msi_attrib :: u32
  multiple :: nat
  refcount :: int

record msi_device_data =
  num_vectors :: int

record device =
  msi_data :: addr
  msi_domain :: addr

definition MSI_MAX_VECTORS :: u32 where "MSI_MAX_VECTORS = 32"

text \<open>
  Modelled from the spec: the IRQ-domain core is not among the sources. Of a domain the
  model keeps the set of reserved hardware ids (its occupancy); the mappings live in
  one table from a virtual IRQ to the domain and hardware id it stands for.
\<close>

record irq_domain =
  reserved :: "u32 set"

record kernel =
  live :: "addr set"
  heads :: "addr \<Rightarrow> list_head"
  descs :: "addr \<Rightarrow> msi_desc"
  regs :: "addr \<Rightarrow> msi_device_data"
  devs :: "addr \<Rightarrow> device"
  domains :: "addr \<Rightarrow> irq_domain"
  virqs :: "u32 \<rightharpoonup> addr \<times> u32"

subsection \<open>The kernel allocator\<close>

text \<open>
  Modelled from the spec: \<open>kmalloc\<close> and \<open>kfree\<close> are not among the sources. A call of
  \<open>kmalloc(size, KM_ZERO)\<close> returns \<open>NULL\<close> or the address of a zeroed block; which, is
  the caller's parameter \<open>p\<close>. \<open>live\<close> is the set of blocks handed out and not yet freed;
  \<open>kfree\<close> takes a block out of it and leaves its bytes alone.
\<close>

definition desc_zero :: msi_desc where
  "desc_zero = \<lparr>dev = 0, hwirq = 0, irq = 0, msi_attrib = 0, multiple = 0, refcount = 0\<rparr>"

definition kmalloc_desc :: "addr \<Rightarrow> kernel \<Rightarrow> kernel" where
  "kmalloc_desc p s =
     s\<lparr>live := insert p (live s),
       heads := (heads s)(p := \<lparr>list_next = 0, list_prev = 0\<rparr>),
       descs := (descs s)(p := desc_zero)\<rparr>"

definition kmalloc_msi_data :: "addr \<Rightarrow> kernel \<Rightarrow> kernel" where
  "kmalloc_msi_data p s =
     s\<lparr>live := insert p (live s),
       heads := (heads s)(p := \<lparr>list_next = 0, list_prev = 0\<rparr>),
       regs := (regs s)(p := \<lparr>num_vectors = 0\<rparr>)\<rparr>"

definition kfree :: "addr \<Rightarrow> kernel \<Rightarrow> kernel" where
  "kfree p s = s\<lparr>live := live s - {p}\<rparr>"

subsection \<open>Field assignments\<close>

text \<open>One function per assignment form \<open>p->field = v\<close> of the source.\<close>

definition set_list_next :: "addr \<Rightarrow> addr \<Rightarrow> kernel \<Rightarrow> kernel" where
  "set_list_next p v s = s\<lparr>heads := (heads s)(p := (heads s p)\<lparr>list_next := v\<rparr>)\<rparr>"

definition set_list_prev :: "addr \<Rightarrow> addr \<Rightarrow> kernel \<Rightarrow> kernel" where
  "set_list_prev p v s = s\<lparr>heads := (heads s)(p := (heads s p)\<lparr>list_prev := v\<rparr>)\<rparr>"

definition set_refcount :: "addr \<Rightarrow> int \<Rightarrow> kernel \<Rightarrow> kernel" where
  "set_refcount p v s = s\<lparr>descs := (descs s)(p := (descs s p)\<lparr>refcount := v\<rparr>)\<rparr>"

definition set_dev :: "addr \<Rightarrow> addr \<Rightarrow> kernel \<Rightarrow> kernel" where
  "set_dev p v s = s\<lparr>descs := (descs s)(p := (descs s p)\<lparr>dev := v\<rparr>)\<rparr>"

definition set_hwirq :: "addr \<Rightarrow> u32 \<Rightarrow> kernel \<Rightarrow> kernel" where
  "set_hwirq p v s = s\<lparr>descs := (descs s)(p := (descs s p)\<lparr>hwirq := v\<rparr>)\<rparr>"

definition set_irq :: "addr \<Rightarrow> u32 \<Rightarrow> kernel \<Rightarrow> kernel" where
  "set_irq p v s = s\<lparr>descs := (descs s)(p := (descs s p)\<lparr>irq := v\<rparr>)\<rparr>"

definition set_msi_attrib :: "addr \<Rightarrow> u32 \<Rightarrow> kernel \<Rightarrow> kernel" where
  "set_msi_attrib p v s = s\<lparr>descs := (descs s)(p := (descs s p)\<lparr>msi_attrib := v\<rparr>)\<rparr>"

definition set_multiple :: "addr \<Rightarrow> nat \<Rightarrow> kernel \<Rightarrow> kernel" where
  "set_multiple p v s = s\<lparr>descs := (descs s)(p := (descs s p)\<lparr>multiple := v\<rparr>)\<rparr>"

definition set_num_vectors :: "addr \<Rightarrow> int \<Rightarrow> kernel \<Rightarrow> kernel" where
  "set_num_vectors p v s = s\<lparr>regs := (regs s)(p := (regs s p)\<lparr>num_vectors := v\<rparr>)\<rparr>"

definition set_msi_data :: "addr \<Rightarrow> addr \<Rightarrow> kernel \<Rightarrow> kernel" where
  "set_msi_data p v s = s\<lparr>devs := (devs s)(p := (devs s p)\<lparr>msi_data := v\<rparr>)\<rparr>"

text \<open>
  The two statements that take a node out of its list, as they stand in
  \<open>msi_desc_free\<close>, \<open>msi_device_cleanup\<close>, \<open>msi_alloc_vectors\<close> and \<open>msi_free_vectors\<close>:
  \<open>d->list.next->prev = d->list.prev; d->list.prev->next = d->list.next;\<close>
\<close>

definition list_unlink :: "addr \<Rightarrow> kernel \<Rightarrow> kernel" where
  "list_unlink d s =
     (let s = set_list_prev (list_next (heads s d)) (list_prev (heads s d)) s;
          s = set_list_next (list_prev (heads s d)) (list_next (heads s d)) s
      in s)"

subsection \<open>The IRQ-domain operations\<close>

text \<open>
  Modelled from the spec: \<open>irq_domain_alloc_hwirq_range(domain, n, &base)\<close> "reserves
  \<open>n\<close> consecutive ids; returns 0 on success and writes base, negative on failure";
  \<open>irq_domain_free_hwirq_range(domain, base, n)\<close> "releases the range";
  \<open>irq_create_mapping(domain, hwirq)\<close> "returns a non-zero virq or 0 on failure";
  \<open>irq_dispose_mapping(virq)\<close> "tears down the mapping". What the first and the third
  answer is a parameter: the base or nothing, and the virq or 0. A successful
  reservation adds the ids \<open>base, ..., base + n - 1\<close> to the occupancy
  (\<open>irq_domain_reserve\<close>), a release takes them out.
\<close>

definition hwirq_range :: "u32 \<Rightarrow> nat \<Rightarrow> u32 set" where
  "hwirq_range b n = (\<lambda>j. b + of_nat j) ` {..<n}"

definition irq_domain_reserve :: "addr \<Rightarrow> u32 \<Rightarrow> nat \<Rightarrow> kernel \<Rightarrow> kernel" where
  "irq_domain_reserve d b n s =
     s\<lparr>domains := (domains s)
        (d := (domains s d)\<lparr>reserved := reserved (domains s d) \<union> hwirq_range b n\<rparr>)\<rparr>"

definition irq_domain_alloc_hwirq_range ::
  "u32 option \<Rightarrow> addr \<Rightarrow> nat \<Rightarrow> kernel \<Rightarrow> u32 option \<times> kernel" where
  "irq_domain_alloc_hwirq_range answer d n s =
     (case answer of
        None \<Rightarrow> (None, s)
      | Some b \<Rightarrow> (Some b, irq_domain_reserve d b n s))"

definition irq_domain_free_hwirq_range :: "addr \<Rightarrow> u32 \<Rightarrow> nat \<Rightarrow> kernel \<Rightarrow> kernel" where
  "irq_domain_free_hwirq_range d b n s =
     s\<lparr>domains := (domains s)
        (d := (domains s d)\<lparr>reserved := reserved (domains s d) - hwirq_range b n\<rparr>)\<rparr>"

definition irq_create_mapping :: "u32 \<Rightarrow> addr \<Rightarrow> u32 \<Rightarrow> kernel \<Rightarrow> u32 \<times> kernel" where
  "irq_create_mapping answer d h s =
     (if answer = 0 then (0, s) else (answer, s\<lparr>virqs := (virqs s)(answer \<mapsto> (d, h))\<rparr>))"

definition irq_dispose_mapping :: "u32 \<Rightarrow> kernel \<Rightarrow> kernel" where
  "irq_dispose_mapping v s = s\<lparr>virqs := (virqs s)(v := None)\<rparr>"

subsection \<open>Descriptors and the registry\<close>

text \<open>\<open>msi_desc_alloc_internal\<close>; \<open>p\<close> is what \<open>kmalloc\<close> returns.\<close>

definition msi_desc_alloc_internal :: "addr \<Rightarrow> kernel \<Rightarrow> addr \<times> kernel" where
  "msi_desc_alloc_internal p s =
     (if p = 0 then (0, s)
      else
        let s = kmalloc_desc p s;
            s = set_list_next p p s;
            s = set_list_prev p p s;
            s = set_refcount p 1 s
        in (p, s))"

text \<open>
  \<open>msi_desc_alloc\<close>; \<open>p\<close> is what \<open>kmalloc\<close> returns. The loop that computes \<open>multiple\<close>
  compares \<open>1U << multiple\<close> with \<open>nvec\<close>; behind the argument check \<open>nvec\<close> is at most 32
  and the loop ends with \<open>multiple\<close> at most 5. The result is the pointer returned (0
  for \<open>NULL\<close>) and the state, \<open>None\<close> when the loop does not end.
\<close>

partial_function (option) multiple_loop :: "addr \<Rightarrow> u32 \<Rightarrow> kernel \<Rightarrow> kernel option" where
  "multiple_loop desc nvec s =
     (if push_bit (multiple (descs s desc)) (1::u32) < nvec
      then multiple_loop desc nvec (set_multiple desc (multiple (descs s desc) + 1) s)
      else Some s)"

declare multiple_loop.simps [code]

definition msi_desc_alloc :: "addr \<Rightarrow> addr \<Rightarrow> u32 \<Rightarrow> kernel \<Rightarrow> (addr \<times> kernel) option" where
  "msi_desc_alloc p dv nvec s =
     (if dv = 0 \<or> nvec = 0 \<or> nvec > MSI_MAX_VECTORS then Some (0, s)
      else case msi_desc_alloc_internal p s of
        (desc, s) \<Rightarrow>
          if desc = 0 then Some (0, s)
          else
            (let s = set_dev desc dv s;
                 s = set_multiple desc 0 s
             in case multiple_loop desc nvec s of
                  None \<Rightarrow> None
                | Some s \<Rightarrow> Some (desc, s)))"

text \<open>\<open>msi_desc_free\<close>.\<close>

definition msi_desc_free :: "addr \<Rightarrow> kernel \<Rightarrow> kernel" where
  "msi_desc_free desc s =
     (if desc = 0 then s
      else
        let s = set_refcount desc (refcount (descs s desc) - 1) s
        in if refcount (descs s desc) > 0 then s
           else
             let s = (if list_next (heads s desc) \<noteq> desc then list_unlink desc s else s)
             in kfree desc s)"

text \<open>\<open>msi_desc_list_add_locked\<close>; the result is the return value and the state.\<close>

definition msi_desc_list_add_locked :: "addr \<Rightarrow> addr \<Rightarrow> kernel \<Rightarrow> int \<times> kernel" where
  "msi_desc_list_add_locked md desc s =
     (if md = 0 \<or> desc = 0 then (- 1, s)
      else
        let s = set_list_next desc md s;
            s = set_list_prev desc (list_prev (heads s md)) s;
            s = set_list_next (list_prev (heads s md)) desc s;
            s = set_list_prev md desc s;
            s = set_num_vectors md (num_vectors (regs s md) + 1) s;
            s = set_refcount desc (refcount (descs s desc) + 1) s
        in (0, s))"

text \<open>\<open>msi_desc_list_add\<close>: the same under the registry's lock.\<close>

definition msi_desc_list_add :: "addr \<Rightarrow> addr \<Rightarrow> kernel \<Rightarrow> int \<times> kernel" where
  "msi_desc_list_add md desc s =
     (if md = 0 \<or> desc = 0 then (- 1, s)
      else msi_desc_list_add_locked md desc s)"

text \<open>\<open>msi_device_init\<close>; \<open>p\<close> is what \<open>kmalloc\<close> returns.\<close>

definition msi_device_init :: "addr \<Rightarrow> addr \<Rightarrow> kernel \<Rightarrow> int \<times> kernel" where
  "msi_device_init p dv s =
     (if dv = 0 then (- 1, s)
      else if p = 0 then (- 1, s)
      else
        let s = kmalloc_msi_data p s;
            s = set_list_next p p s;
            s = set_list_prev p p s;
            s = set_msi_data dv p s
        in (0, s))"

text \<open>
  \<open>msi_device_cleanup\<close>. The \<open>while\<close> loop follows pointers and ends when it is back at
  the sentinel; on a heap where it never gets there the loop runs forever, and the
  result is \<open>None\<close>.
\<close>

partial_function (option) cleanup_walk :: "addr \<Rightarrow> addr \<Rightarrow> kernel \<Rightarrow> kernel option" where
  "cleanup_walk md desc s =
     (if desc = md then Some s
      else
        cleanup_walk md (list_next (heads s desc))
          (let s = list_unlink desc s;
               s = set_refcount desc (refcount (descs s desc) - 1) s
           in if refcount (descs s desc) = 0 then kfree desc s else s))"

declare cleanup_walk.simps [code]

definition msi_device_cleanup :: "addr \<Rightarrow> kernel \<Rightarrow> kernel option" where
  "msi_device_cleanup dv s =
     (if dv = 0 \<or> msi_data (devs s dv) = 0 then Some s
      else
        let md = msi_data (devs s dv)
        in case cleanup_walk md (list_next (heads s md)) s of
             None \<Rightarrow> None
           | Some s \<Rightarrow> Some (set_msi_data dv 0 (kfree md s)))"

subsection \<open>Allocating vectors\<close>

text \<open>
  What the collaborators answer during one call of \<open>msi_alloc_vectors\<close>: the base that
  \<open>irq_domain_alloc_hwirq_range\<close> writes for a request of \<open>n\<close> ids (or nothing), the
  address \<open>kmalloc\<close> returns in iteration \<open>i\<close> of the loop (0 for \<open>NULL\<close>), and the virq
  \<open>irq_create_mapping\<close> returns in iteration \<open>i\<close> (0 for failure).
\<close>

record alloc_env =
  env_hwirq_base :: "nat \<Rightarrow> u32 option"
  env_kmalloc :: "nat \<Rightarrow> addr"
  env_virq :: "nat \<Rightarrow> u32"

text \<open>
  Every failure of \<open>msi_alloc_vectors\<close> is \<open>return -1\<close>. The model names the
  \<open>return\<close> statement that was taken; \<open>msi_return\<close> is the \<open>int\<close> the caller sees.
\<close>

datatype msi_error =
    Invalid_argument
  | No_power_of_two
  | Range_unavailable
  | Out_of_memory
  | Mapping_failed
  | List_add_failed

definition msi_return :: "msi_error + u32 \<Rightarrow> int" where
  "msi_return r = (case r of Inl e \<Rightarrow> - 1 | Inr n \<Rightarrow> sint n)"

text \<open>
  The size selection \<open>nvec = 1; while (nvec <= max_vecs) nvec <<= 1;\<close> on \<open>uint32_t\<close>.
  Once \<open>nvec\<close> has wrapped to 0 the loop never ends: the result is \<open>None\<close>.
\<close>

partial_function (option) nvec_loop :: "u32 \<Rightarrow> u32 \<Rightarrow> u32 option" where
  "nvec_loop nvec max_vecs =
     (if nvec \<le> max_vecs then nvec_loop (push_bit 1 nvec) max_vecs else Some nvec)"

declare nvec_loop.simps [code]

text \<open>
  The \<open>for\<close> loop. It ends with \<open>Inr\<close> and the state when all \<open>nvec\<close> descriptors are
  in the list, and with \<open>Inl\<close> at a \<open>goto cleanup\<close>: the cause, the value of \<open>i\<close> and the
  state there.
\<close>

function populate ::
  "alloc_env \<Rightarrow> addr \<Rightarrow> addr \<Rightarrow> u32 \<Rightarrow> u32 \<Rightarrow> u32 \<Rightarrow> nat \<Rightarrow> kernel
     \<Rightarrow> (msi_error \<times> nat \<times> kernel) + kernel" where
  "populate env dv md hwirq_base flags nvec i s =
     (if i < unat nvec then
        (case msi_desc_alloc_internal (env_kmalloc env i) s of
           (desc, s) \<Rightarrow>
             if desc = 0 then Inl (Out_of_memory, i, s)
             else
               (let s = set_dev desc dv s;
                    s = set_hwirq desc (hwirq_base + of_nat i) s;
                    s = set_msi_attrib desc (flags AND 0xFFFF) s
                in case irq_create_mapping (env_virq env i) (device.msi_domain (devs s dv))
                          (hwirq (descs s desc)) s of
                     (v, s) \<Rightarrow>
                       (let s = set_irq desc v s
                        in if irq (descs s desc) = 0 then Inl (Mapping_failed, i, kfree desc s)
                           else
                             (case msi_desc_list_add_locked md desc s of
                                (r, s) \<Rightarrow>
                                  if r < 0 then
                                    Inl (List_add_failed, i,
                                         kfree desc (irq_dispose_mapping (irq (descs s desc)) s))
                                  else populate env dv md hwirq_base flags nvec (i + 1) s))))
      else Inr s)"
  by pat_completeness auto
termination
  by (relation "measure (\<lambda>(env, dv, md, hwirq_base, flags, nvec, i, s). unat nvec - i)") auto

declare populate.simps [simp del]

text \<open>
  The \<open>cleanup\<close> label. The inner loop looks for the first descriptor of the list with
  the wanted \<open>hwirq\<close> and takes it out (\<open>None\<close> when it never comes back to the
  sentinel); the outer loop runs \<open>i\<close> down to 0.
\<close>

partial_function (option) cleanup_find :: "addr \<Rightarrow> u32 \<Rightarrow> addr \<Rightarrow> kernel \<Rightarrow> kernel option" where
  "cleanup_find md target d s =
     (if d = md then Some s
      else if hwirq (descs s d) = target then
        Some (let s = irq_dispose_mapping (irq (descs s d)) s;
                  s = list_unlink d s;
                  s = set_num_vectors md (num_vectors (regs s md) - 1) s
              in kfree d s)
      else cleanup_find md target (list_next (heads s d)) s)"

declare cleanup_find.simps [code]

fun cleanup_loop :: "addr \<Rightarrow> u32 \<Rightarrow> nat \<Rightarrow> kernel \<Rightarrow> kernel option" where
  "cleanup_loop md hwirq_base 0 s = Some s"
| "cleanup_loop md hwirq_base (Suc i) s =
     (case cleanup_find md (hwirq_base + of_nat i) (list_next (heads s md)) s of
        None \<Rightarrow> None
      | Some s \<Rightarrow> cleanup_loop md hwirq_base i s)"

text \<open>\<open>msi_alloc_vectors\<close>: the result (\<open>None\<close> when a loop does not end) and the state.\<close>

definition msi_alloc_vectors ::
  "alloc_env \<Rightarrow> addr \<Rightarrow> u32 \<Rightarrow> u32 \<Rightarrow> u32 \<Rightarrow> kernel \<Rightarrow> ((msi_error + u32) \<times> kernel) option" where
  "msi_alloc_vectors env dv min_vecs max_vecs flags s =
     (if dv = 0 \<or> msi_data (devs s dv) = 0 \<or> device.msi_domain (devs s dv) = 0 \<or> min_vecs = 0 \<or>
         min_vecs > max_vecs \<or> max_vecs > MSI_MAX_VECTORS
      then Some (Inl Invalid_argument, s)
      else
        let md = msi_data (devs s dv)
        in case nvec_loop 1 max_vecs of
             None \<Rightarrow> None
           | Some nvec \<Rightarrow>
               (let nvec = drop_bit 1 nvec
                in if nvec < min_vecs then Some (Inl No_power_of_two, s)
                   else
                     (case irq_domain_alloc_hwirq_range (env_hwirq_base env (unat nvec))
                             (device.msi_domain (devs s dv)) (unat nvec) s of
                        (None, s) \<Rightarrow> Some (Inl Range_unavailable, s)
                      | (Some hwirq_base, s) \<Rightarrow>
                          (case populate env dv md hwirq_base flags nvec 0 s of
                             Inr s \<Rightarrow> Some (Inr nvec, s)
                           | Inl (e, i, s) \<Rightarrow>
                               (case cleanup_loop md hwirq_base i s of
                                  None \<Rightarrow> None
                                | Some s \<Rightarrow>
                                    Some (Inl e,
                                          irq_domain_free_hwirq_range
                                            (device.msi_domain (devs s dv)) hwirq_base (unat nvec) s))))))"

subsection \<open>Freeing vectors\<close>

text \<open>\<open>msi_free_vectors\<close>; its loop is \<open>free_walk\<close>.\<close>

partial_function (option) free_walk :: "addr \<Rightarrow> addr \<Rightarrow> addr \<Rightarrow> kernel \<Rightarrow> kernel option" where
  "free_walk dv md desc s =
     (if desc = md then Some s
      else
        free_walk dv md (list_next (heads s desc))
          (let s = (if irq (descs s desc) \<noteq> 0 then irq_dispose_mapping (irq (descs s desc)) s else s);
               s = irq_domain_free_hwirq_range (device.msi_domain (devs s dv)) (hwirq (descs s desc)) 1 s;
               s = list_unlink desc s;
               s = set_num_vectors md (num_vectors (regs s md) - 1) s
           in kfree desc s))"

declare free_walk.simps [code]

definition msi_free_vectors :: "addr \<Rightarrow> kernel \<Rightarrow> kernel option" where
  "msi_free_vectors dv s =
     (if dv = 0 \<or> msi_data (devs s dv) = 0 \<or> device.msi_domain (devs s dv) = 0 then Some s
      else
        let md = msi_data (devs s dv)
        in free_walk dv md (list_next (heads s md)) s)"

section \<open>Auxiliary notions used in the proofs\<close>

text \<open>
  One halving step of \<open>ffs\<close> with window width \<open>k\<close>, and the invariant of the scan:
  below position \<open>n - 1\<close> the argument \<open>x\<close> has no set bit, the low \<open>w\<close> bits of the
  shifted value \<open>i\<close> are the bits of \<open>x\<close> from position \<open>n - 1\<close> on, and one of them is set.
\<close>

definition scan_stage :: "nat \<Rightarrow> int \<times> u32 \<Rightarrow> int \<times> u32" where
  "scan_stage k = (\<lambda>(n, i). if i AND mask k = 0 then (n + int k, signed_drop_bit k i) else (n, i))"

definition scan_inv :: "u32 \<Rightarrow> nat \<Rightarrow> int \<times> u32 \<Rightarrow> bool" where
  "scan_inv x w = (\<lambda>(n, i). 1 \<le> n \<and> nat (n - 1) + w \<le> 32 \<and>
      (\<forall>j < nat (n - 1). \<not> bit x j) \<and>
      (\<forall>j < w. bit i j = bit x (j + nat (n - 1))) \<and>
      (\<exists>j < w. bit i j))"



text \<open>
  The list a registry holds. \<open>dpath h p ds q\<close>: in the link heap \<open>h\<close>, following \<open>next\<close>
  from \<open>p\<close> visits the nodes \<open>ds\<close> in order and then \<open>q\<close>, and every \<open>prev\<close> on the way
  points back. \<open>dlist s md ds\<close>: the list of the registry \<open>md\<close> is well formed, a cycle
  from the sentinel through the distinct descriptors \<open>ds\<close> (in traversal order) back to
  the sentinel. The empty list is the self-referential sentinel.
\<close>

fun dpath :: "(addr \<Rightarrow> list_head) \<Rightarrow> addr \<Rightarrow> addr list \<Rightarrow> addr \<Rightarrow> bool" where
  "dpath h p [] q = (list_next (h p) = q \<and> list_prev (h q) = p)"
| "dpath h p (d # ds) q = (list_next (h p) = d \<and> list_prev (h d) = p \<and> dpath h d ds q)"

definition dlist :: "kernel \<Rightarrow> addr \<Rightarrow> addr list \<Rightarrow> bool" where
  "dlist s md ds = (dpath (heads s) md ds md \<and> distinct (md # ds))"


text \<open>
  One round of the \<open>for\<close> loop of \<open>msi_alloc_vectors\<close> as a state transformer:
  \<open>iter_state\<close> when the descriptor is allocated, mapped and linked, \<open>iter_fail_state\<close>
  when the mapping fails and the fresh descriptor is freed again. \<open>populated\<close> relates
  the state \<open>s\<close> before round \<open>i\<close> to the state \<open>s'\<close> before round \<open>k\<close>: the descriptors
  of rounds \<open>i\<close> to \<open>k - 1\<close> are at the tail of the list in that order, each with its
  \<open>hwirq\<close>, its non-zero \<open>irq\<close> and reference count 2; nothing that was live before has
  changed.
\<close>

definition iter_state :: "alloc_env \<Rightarrow> addr \<Rightarrow> addr \<Rightarrow> u32 \<Rightarrow> u32 \<Rightarrow> nat \<Rightarrow> kernel \<Rightarrow> kernel" where
  "iter_state env dv md hwirq_base flags i s =
     (let p = env_kmalloc env i;
          s = snd (msi_desc_alloc_internal p s);
          s = set_dev p dv s;
          s = set_hwirq p (hwirq_base + of_nat i) s;
          s = set_msi_attrib p (flags AND 0xFFFF) s;
          s = snd (irq_create_mapping (env_virq env i) (device.msi_domain (devs s dv)) (hwirq (descs s p)) s);
          s = set_irq p (env_virq env i) s
      in snd (msi_desc_list_add_locked md p s))"

definition iter_fail_state :: "alloc_env \<Rightarrow> addr \<Rightarrow> u32 \<Rightarrow> u32 \<Rightarrow> nat \<Rightarrow> kernel \<Rightarrow> kernel" where
  "iter_fail_state env dv hwirq_base flags i s =
     (let p = env_kmalloc env i;
          s = snd (msi_desc_alloc_internal p s);
          s = set_dev p dv s;
          s = set_hwirq p (hwirq_base + of_nat i) s;
          s = set_msi_attrib p (flags AND 0xFFFF) s;
          s = set_irq p 0 s
      in kfree p s)"

definition populated ::
  "alloc_env \<Rightarrow> addr \<Rightarrow> addr \<Rightarrow> u32 \<Rightarrow> u32 \<Rightarrow> addr list \<Rightarrow> nat \<Rightarrow> nat \<Rightarrow> kernel \<Rightarrow> kernel \<Rightarrow> bool" where
  "populated env dv md hwirq_base flags L i k s s' =
     (dlist s' md (L @ map (env_kmalloc env) [i..<k]) \<and>
      num_vectors (regs s' md) = num_vectors (regs s md) + int (k - i) \<and>
      live s' = live s \<union> env_kmalloc env ` {i..<k} \<and>
      (\<forall>j \<in> {i..<k}. env_kmalloc env j \<noteq> 0 \<and> env_virq env j \<noteq> 0 \<and>
         descs s' (env_kmalloc env j) =
           \<lparr>dev = dv, hwirq = hwirq_base + of_nat j, irq = env_virq env j,
            msi_attrib = flags AND 0xFFFF, multiple = 0, refcount = 2\<rparr>) \<and>
      (\<forall>p \<in> live s. descs s' p = descs s p) \<and>
      devs s' = devs s \<and> domains s' = domains s \<and>
      (\<forall>x. x \<noteq> md \<longrightarrow> regs s' x = regs s x))"


text \<open>
  The state of a device's registry as \<open>msi_device_init\<close>, \<open>msi_alloc_vectors\<close> and
  \<open>msi_free_vectors\<close> keep it. \<open>registry_inv s dv ds\<close>: the device \<open>dv\<close> has a registry
  and an MSI domain; the registry's list is well formed and holds the descriptors
  \<open>ds\<close>; \<open>num_vectors\<close> is their number; the registry and the descriptors are live
  blocks; every descriptor's \<open>hwirq\<close> is reserved in the domain and its \<open>irq\<close> is mapped
  (non-zero).

  \<open>env_ok env s dv\<close>: the collaborators keep their contracts during the call. A range
  the domain hands out for a request of up to 32 ids is free before (disjoint from the
  occupancy) and does not run over the end of the 32-bit id space; a block \<open>kmalloc\<close>
  returns is not live and differs from those of the rounds before.
\<close>

definition registry_inv :: "kernel \<Rightarrow> addr \<Rightarrow> addr list \<Rightarrow> bool" where
  "registry_inv s dv ds =
     (dv \<noteq> 0 \<and> msi_data (devs s dv) \<noteq> 0 \<and> device.msi_domain (devs s dv) \<noteq> 0 \<and>
      dlist s (msi_data (devs s dv)) ds \<and>
      num_vectors (regs s (msi_data (devs s dv))) = int (length ds) \<and>
      set (msi_data (devs s dv) # ds) \<subseteq> live s \<and>
      (\<forall>p \<in> set ds. hwirq (descs s p) \<in> reserved (domains s (device.msi_domain (devs s dv))) \<and>
                     irq (descs s p) \<noteq> 0))"

definition env_ok :: "alloc_env \<Rightarrow> kernel \<Rightarrow> addr \<Rightarrow> bool" where
  "env_ok env s dv =
     ((\<forall>n \<in> {0..32}. case env_hwirq_base env n of
          None \<Rightarrow> True
        | Some b \<Rightarrow> hwirq_range b n \<inter> reserved (domains s (device.msi_domain (devs s dv))) = {} \<and>
                    unat b + n \<le> 2 ^ 32) \<and>
      (\<forall>j \<in> {0..<32}. env_kmalloc env j = 0 \<or>
          env_kmalloc env j \<notin> live s \<and> (\<forall>j' \<in> {0..<j}. env_kmalloc env j' \<noteq> env_kmalloc env j)))"


text \<open>
  The largest power of two that is at most \<open>hi\<close>, for \<open>hi\<close> up to 32, in closed form
  (0 for \<open>hi = 0\<close>); the size-selection loop of \<open>msi_alloc_vectors\<close> is shown to compute it.
\<close>

definition select_nvec :: "u32 \<Rightarrow> u32" where
  "select_nvec hi = (if hi < 1 then 0 else if hi < 2 then 1 else if hi < 4 then 2
           else if hi < 8 then 4 else if hi < 16 then 8 else if hi < 32 then 16 else 32)"


text \<open>
  \<open>registry_restored s s' dv ds\<close>: for the registry of \<open>dv\<close>, state \<open>s'\<close> is state \<open>s\<close>:
  the same devices and live blocks, the same list with the same links, the same
  counter, the same contents of every block that was live, the same occupancy of the
  MSI domain.
\<close>

definition registry_restored :: "kernel \<Rightarrow> kernel \<Rightarrow> addr \<Rightarrow> addr list \<Rightarrow> bool" where
  "registry_restored s s' dv ds =
     (devs s' = devs s \<and> live s' = live s \<and>
      dlist s' (msi_data (devs s dv)) ds \<and>
      num_vectors (regs s' (msi_data (devs s dv))) = num_vectors (regs s (msi_data (devs s dv))) \<and>
      (\<forall>p \<in> set (msi_data (devs s dv) # ds). heads s' p = heads s p) \<and>
      (\<forall>p \<in> live s. descs s' p = descs s p) \<and>
      reserved (domains s' (device.msi_domain (devs s dv))) =
        reserved (domains s (device.msi_domain (devs s dv))))"


text \<open>Why a call of \<open>msi_alloc_vectors\<close> took the \<open>return -1\<close> named by \<open>e\<close>.\<close>

definition alloc_failure_cause :: "alloc_env \<Rightarrow> u32 \<Rightarrow> u32 \<Rightarrow> msi_error \<Rightarrow> bool" where
  "alloc_failure_cause env lo hi e =
     (case e of
        Invalid_argument \<Rightarrow> lo = 0 \<or> lo > hi \<or> hi > 32
      | No_power_of_two \<Rightarrow> lo \<noteq> 0 \<and> lo \<le> hi \<and> hi \<le> 32 \<and> select_nvec hi < lo
      | Range_unavailable \<Rightarrow> env_hwirq_base env (unat (select_nvec hi)) = None
      | Out_of_memory \<Rightarrow> (\<exists>k < unat (select_nvec hi). env_kmalloc env k = 0)
      | Mapping_failed \<Rightarrow> (\<exists>k < unat (select_nvec hi). env_virq env k = 0)
      | List_add_failed \<Rightarrow> False)"

section \<open>Concrete inputs\<close>

text \<open>
  A booted system before any attach, a device-tree node with one memory resource and
  \<open>riscv,num-ids = 512\<close>, the same node without the property, an attached controller
  with 256 ids, and two contents of the pending registers: ids 36 and 37 pending, and
  only id 0 pending.
\<close>

definition st_boot :: imsic_state where
  "st_boot = \<lparr>primary_imsic_data = imsic_data_zero,
              primary_imsic_file = \<lparr>base = 0, hart_id = 0, num_ids = 0, pending_bitmap = 0, enabled_bitmap = 0\<rparr>,
              imsic_initialized = False\<rparr>"

definition dev_ids512 :: imsic_device where
  "dev_ids512 = \<lparr>name = ''imsics@24000000'',
             mem_resources = [\<lparr>start = 0x24000000, mapped_addr = 0\<rparr>],
             properties = [''riscv,num-ids'' \<mapsto> 512],
             driver_data = NoData\<rparr>"

definition dev_default :: imsic_device where
  "dev_default = \<lparr>name = ''imsics@24000000'',
             mem_resources = [\<lparr>start = 0x24000000, mapped_addr = 0\<rparr>],
             properties = Map.empty,
             driver_data = NoData\<rparr>"

definition st_attached :: imsic_state where
  "st_attached =
     \<lparr>primary_imsic_data = \<lparr>files = PrimaryFile, num_harts = 1, num_ids = 256, base_ppn = 0x24000,
                            domain = 7, msi_domain = 0\<rparr>,
      primary_imsic_file = \<lparr>base = 0x24000000, hart_id = 0, num_ids = 256, pending_bitmap = 0,
                            enabled_bitmap = 0\<rparr>,
      imsic_initialized = True\<rparr>"

definition mmio_id36 :: "u64 \<Rightarrow> u32" where
  "mmio_id36 a = (if a = 0x24000084 then 0x30 else 0)"

definition mmio_id0 :: "u64 \<Rightarrow> u32" where
  "mmio_id0 a = (if a = 0x24000080 then 1 else 0)"

text \<open>
  For the MSI core: a kernel with nothing allocated in which device 1 has the MSI domain
  3; the same after \<open>msi_device_init\<close> put the registry at address 10; collaborators that
  grant everything (range base 64, blocks 20, 21, ..., virqs 100, 101, ...) and
  collaborators whose second mapping fails; and the states after three calls of
  \<open>msi_alloc_vectors\<close> on the fresh registry: for 3 to 7 vectors, for 1 vector, and for 2
  vectors with the failing mapping.
\<close>

definition k_boot :: kernel where
  "k_boot = \<lparr>live = {}, heads = (\<lambda>_. \<lparr>list_next = 0, list_prev = 0\<rparr>), descs = (\<lambda>_. desc_zero),
     regs = (\<lambda>_. \<lparr>num_vectors = 0\<rparr>),
     devs = (\<lambda>_. \<lparr>msi_data = 0, msi_domain = 0\<rparr>)(1 := \<lparr>msi_data = 0, msi_domain = 3\<rparr>),
     domains = (\<lambda>_. \<lparr>reserved = {}\<rparr>), virqs = Map.empty\<rparr>"

definition k_fresh :: kernel where
  "k_fresh = snd (msi_device_init 10 1 k_boot)"

definition env_good :: alloc_env where
  "env_good = \<lparr>env_hwirq_base = (\<lambda>n. Some 64), env_kmalloc = (\<lambda>i. 20 + i),
               env_virq = (\<lambda>i. 100 + of_nat i)\<rparr>"

definition env_nomap :: alloc_env where
  "env_nomap = \<lparr>env_hwirq_base = (\<lambda>n. Some 64), env_kmalloc = (\<lambda>i. 20 + i),
                env_virq = (\<lambda>i. if i = 1 then 0 else 100 + of_nat i)\<rparr>"

definition k_four :: kernel where
  "k_four = snd (the (msi_alloc_vectors env_good 1 3 7 0 k_fresh))"

definition k_one :: kernel where
  "k_one = snd (the (msi_alloc_vectors env_good 1 1 1 0 k_fresh))"

definition k_failed :: kernel where
  "k_failed = snd (the (msi_alloc_vectors env_nomap 1 2 2 0 k_fresh))"

text \<open>
  A registry that also holds a descriptor its owner made with \<open>msi_desc_alloc\<close> and put
  into the list with \<open>msi_desc_list_add\<close>: block 20, with the \<open>hwirq\<close> 0 and the \<open>irq\<close> 0
  of a zeroed block. The domain has nothing reserved, so it may hand out the range that
  starts at id 0 (\<open>env_clash\<close>, where the mapping of the second vector fails).
\<close>

definition k_manual :: kernel where
  "k_manual = snd (msi_desc_list_add 10 20 (snd (the (msi_desc_alloc 20 1 1 k_fresh))))"

definition env_clash :: alloc_env where
  "env_clash = \<lparr>env_hwirq_base = (\<lambda>n. Some 0), env_kmalloc = (\<lambda>i. 30 + i),
                env_virq = (\<lambda>i. if i = 0 then 200 else 0)\<rparr>"

definition k_clash :: kernel where
  "k_clash = snd (the (msi_alloc_vectors env_clash 1 2 2 0 k_manual))"

section \<open>Correctness of the bit scan\<close>

lemma and_mask_zero_iff: "(i AND mask k = (0::u32)) = (\<forall>j<k. \<not> bit i j)"
proof
  assume z: "i AND mask k = 0"
  show "\<forall>j<k. \<not> bit i j"
  proof (intro allI impI)
    fix j assume "j < k"
    have "\<not> bit (i AND mask k) j" by (simp add: z)
    with \<open>j < k\<close> show "\<not> bit i j"
      using bit_imp_le_length[of i j] by (auto simp add: bit_simps)
  qed
next
  assume "\<forall>j<k. \<not> bit i j"
  then show "i AND mask k = 0" by (auto simp add: bit_eq_iff bit_simps)
qed

lemma scan_stage_simps:
  "scan_stage 16 (n, i) = (if i AND 0xffff = 0 then (n + 16, signed_drop_bit 16 i) else (n, i))"
  "scan_stage 8 (n, i) = (if i AND 0xff = 0 then (n + 8, signed_drop_bit 8 i) else (n, i))"
  "scan_stage 4 (n, i) = (if i AND 0xf = 0 then (n + 4, signed_drop_bit 4 i) else (n, i))"
  "scan_stage 2 (n, i) = (if i AND 0x3 = 0 then (n + 2, signed_drop_bit 2 i) else (n, i))"
  by (simp_all add: scan_stage_def mask_eq_exp_minus_1)

lemma ffs_stages:
  "x \<noteq> 0 \<Longrightarrow> ffs x = (case scan_stage 2 (scan_stage 4 (scan_stage 8 (scan_stage 16 (1, x)))) of
     (n, i) \<Rightarrow> if i AND 1 = 0 then n + 1 else n)"
  unfolding ffs_def Let_def prod.case scan_stage_simps[symmetric]
  by (simp split: prod.splits)

lemma signed_drop_bit_window: "bit (signed_drop_bit k (i::u32)) j = bit i (j + k)" if "j < k" "k \<le> 16" for j
proof -
  have "bit (signed_drop_bit k i) j = bit i (if LENGTH(32) - k \<le> j \<and> j < LENGTH(32) then LENGTH(32) - 1 else k + j)"
    by (rule bit_signed_drop_bit_iff)
  moreover have "\<not> (LENGTH(32) - k \<le> j \<and> j < LENGTH(32))" using that by simp
  ultimately show ?thesis by (simp only: if_False add.commute)
qed

lemma scan_stage_inv:
  assumes inv: "scan_inv x (2 * k) (n, i)" and k: "0 < k"
  shows "scan_inv x k (scan_stage k (n, i))"
proof (cases "i AND mask k = 0")
  case False
  then obtain j where "j < k" "bit i j" by (auto simp: and_mask_zero_iff)
  with inv False show ?thesis
    by (auto simp: scan_inv_def scan_stage_def)
next
  case True
  then have low: "\<And>j. j < k \<Longrightarrow> \<not> bit i j" by (simp add: and_mask_zero_iff)
  from inv have n: "1 \<le> n" and bound: "nat (n - 1) + 2 * k \<le> 32"
    and below: "\<And>j. j < nat (n - 1) \<Longrightarrow> \<not> bit x j"
    and win: "\<And>j. j < 2 * k \<Longrightarrow> bit i j = bit x (j + nat (n - 1))"
    by (auto simp: scan_inv_def)
  from inv obtain j0 where j0: "j0 < 2 * k" "bit i j0" by (auto simp: scan_inv_def)
  with low have j0k: "k \<le> j0" by (meson not_le)
  from bound have k16: "k \<le> 16" by simp
  have a: "\<not> bit x j" if "j < nat (n + int k - 1)" for j
  proof (cases "j < nat (n - 1)")
    case True then show ?thesis by (rule below)
  next
    case False
    then have "j - nat (n - 1) < k" "j = (j - nat (n - 1)) + nat (n - 1)" using that n by linarith+
    then show ?thesis using low[of "j - nat (n - 1)"] win[of "j - nat (n - 1)"] by simp
  qed
  have b: "bit (signed_drop_bit k i) j = bit x (j + nat (n + int k - 1))" if "j < k" for j
  proof -
    have "nat (n + int k - 1) = k + nat (n - 1)" using n by linarith
    then show ?thesis using signed_drop_bit_window[OF that k16] win[of "j + k"] that by (simp add: add.assoc)
  qed
  have c: "\<exists>j<k. bit (signed_drop_bit k i) j"
  proof -
    have lt: "j0 - k < k" using j0 j0k by linarith
    have "bit (signed_drop_bit k i) (j0 - k)" using signed_drop_bit_window[OF lt k16] j0 j0k by simp
    with lt show ?thesis by blast
  qed
  have d: "nat (n + int k - 1) + k \<le> 32" using bound n by linarith
  from True a b c d n show ?thesis
    by (simp add: scan_inv_def scan_stage_def)
qed

lemma scan_inv_start: "x \<noteq> 0 \<Longrightarrow> scan_inv x 32 (1, x)"
proof -
  assume "x \<noteq> 0"
  then obtain j where "bit x j" by (auto simp: bit_eq_iff)
  moreover from this have "j < 32" using bit_imp_le_length[of x j] by simp
  ultimately show ?thesis by (auto simp: scan_inv_def)
qed

lemma ffs_lowest_bit:
  assumes "x \<noteq> 0"
  shows "1 \<le> ffs x \<and> ffs x \<le> 32 \<and> bit x (nat (ffs x - 1)) \<and> (\<forall>j < nat (ffs x - 1). \<not> bit x j)"
proof -
  obtain n i where ni: "scan_stage 2 (scan_stage 4 (scan_stage 8 (scan_stage 16 (1, x)))) = (n, i)"
    by (cases "scan_stage 2 (scan_stage 4 (scan_stage 8 (scan_stage 16 (1, x))))")
  have s16: "scan_inv x 16 (scan_stage 16 (1, x))"
    using scan_stage_inv[of x 16 1 x] scan_inv_start[OF assms] by simp
  have s8: "scan_inv x 8 (scan_stage 8 (scan_stage 16 (1, x)))"
    using scan_stage_inv[of x 8 "fst (scan_stage 16 (1, x))" "snd (scan_stage 16 (1, x))"] s16 by simp
  have s4: "scan_inv x 4 (scan_stage 4 (scan_stage 8 (scan_stage 16 (1, x))))"
    using scan_stage_inv[of x 4 "fst (scan_stage 8 (scan_stage 16 (1, x)))" "snd (scan_stage 8 (scan_stage 16 (1, x)))"] s8 by simp
  have s2: "scan_inv x 2 (scan_stage 2 (scan_stage 4 (scan_stage 8 (scan_stage 16 (1, x)))))"
    using scan_stage_inv[of x 2 "fst (scan_stage 4 (scan_stage 8 (scan_stage 16 (1, x))))" "snd (scan_stage 4 (scan_stage 8 (scan_stage 16 (1, x))))"] s4 by simp
  from s2 ni have n: "1 \<le> n" and bound: "nat (n - 1) + 2 \<le> 32"
    and below: "\<And>j. j < nat (n - 1) \<Longrightarrow> \<not> bit x j"
    and win: "\<And>j. j < 2 \<Longrightarrow> bit i j = bit x (j + nat (n - 1))"
    and some: "\<exists>j<2. bit i j"
    by (auto simp: scan_inv_def)
  have val: "ffs x = (if i AND 1 = 0 then n + 1 else n)"
    by (simp add: ffs_stages[OF assms] ni)
  have b0: "(i AND 1 = 0) = (\<not> bit i 0)"
    using and_mask_zero_iff[of i 1] by simp
  show ?thesis
  proof (cases "bit i 0")
    case True
    with val b0 have "ffs x = n" by simp
    with True n bound below win[of 0] show ?thesis by simp
  next
    case False
    from some obtain j where j: "j < 2" "bit i j" by blast
    then have "j = 0 \<or> j = 1" by linarith
    with j False have b1: "bit i 1" by auto
    from False val b0 have v: "ffs x = n + 1" by simp
    have nn: "nat (n + 1 - 1) = Suc (nat (n - 1))" using n by linarith
    have "\<not> bit x j" if "j < Suc (nat (n - 1))" for j
      using that below[of j] win[of 0] False by (cases "j = nat (n - 1)") auto
    moreover have "bit x (Suc (nat (n - 1)))" using win[of 1] b1 by simp
    ultimately show ?thesis using v n bound nn by simp
  qed
qed


text \<open>
  Claim C8. For every 32-bit word \<open>x\<close>: \<open>ffs x = 0\<close> exactly when \<open>x = 0\<close>; for \<open>x \<noteq> 0\<close>,
  bit \<open>ffs x - 1\<close> of \<open>x\<close> is set and all bits below it are clear, so \<open>ffs x\<close> is one more
  than the index of the lowest set bit; the result lies between 0 and 32 for every input
  (bit 31 included, where the shifts are arithmetic); and \<open>ffs (1 << k) = k + 1\<close> for
  every \<open>k\<close> from 0 to 31.
\<close>

theorem ffs_correct:
  "(ffs x = 0 \<longleftrightarrow> x = 0) \<and>
   (x \<noteq> 0 \<longrightarrow> bit x (nat (ffs x - 1)) \<and> (\<forall>j < nat (ffs x - 1). \<not> bit x j)) \<and>
   0 \<le> ffs x \<and> ffs x \<le> 32 \<and>
   (\<forall>k < 32. ffs (push_bit k 1) = int k + 1)"
proof -
  have zero: "ffs 0 = 0" by (simp add: ffs_def)
  have pow: "ffs (push_bit k 1) = int k + 1" if "k < 32" for k
  proof -
    have bits: "bit (push_bit k (1::u32)) j = (j = k)" for j
      using that by (auto simp add: bit_simps)
    have nz: "push_bit k (1::u32) \<noteq> 0"
    proof
      assume e: "push_bit k (1::u32) = 0"
      have "bit (push_bit k (1::u32)) k" by (simp only: bits)
      then show False unfolding e by simp
    qed
    from ffs_lowest_bit[OF nz] bits have "nat (ffs (push_bit k 1) - 1) = k" "1 \<le> ffs (push_bit k 1)"
      by auto
    then show ?thesis by linarith
  qed
  show ?thesis
    using zero pow ffs_lowest_bit[of x] by (cases "x = 0") auto
qed

theorem ffs_correct_witness:
  "(0x80000000 :: u32) \<noteq> 0 \<and> ffs 0x80000000 = 32 \<and> bit (0x80000000 :: u32) 31 \<and>
   \<not> bit (0x80000000 :: u32) 30 \<and> ffs (push_bit 5 1) = 6"
  using ffs_correct[of "0x80000000"] by (simp add: ffs_def)


section \<open>The IMSIC interrupt scan\<close>


lemma eip_scan_first:
  assumes "k < unat bound" and "\<forall>j. i \<le> j \<and> j < k \<longrightarrow> eip_word m f j = 0" and "eip_word m f k \<noteq> 0"
    and "i \<le> k"
  shows "eip_scan m f bound i = word_of_int (int k * 32 + ffs (eip_word m f k) - 1)"
  using assms
proof (induction "k - i" arbitrary: i)
  case 0
  then have "i = k" by simp
  with 0 show ?case by (subst eip_scan.simps) (simp add: eip_word_def Let_def)
next
  case (Suc n)
  then have lt: "i < k" by simp
  with Suc.prems have z: "eip_word m f i = 0" by simp
  have "eip_scan m f bound i = eip_scan m f bound (i + 1)"
    using lt Suc.prems(1) z by (subst eip_scan.simps) (simp add: eip_word_def Let_def)
  also have "\<dots> = word_of_int (int k * 32 + ffs (eip_word m f k) - 1)"
    using Suc.hyps(2) Suc.prems lt by (intro Suc.hyps(1)) auto
  finally show ?case .
qed

lemma eip_scan_none:
  assumes "\<forall>j. i \<le> j \<and> j < unat bound \<longrightarrow> eip_word m f j = 0"
  shows "eip_scan m f bound i = 0"
  using assms
proof (induction "unat bound - i" arbitrary: i)
  case 0
  then show ?case by (subst eip_scan.simps) simp
next
  case (Suc n)
  then have lt: "i < unat bound" by simp
  with Suc.prems have z: "eip_word m f i = 0" by simp
  have "eip_scan m f bound i = eip_scan m f bound (i + 1)"
    using lt z by (subst eip_scan.simps) (simp add: eip_word_def Let_def)
  also have "\<dots> = 0"
    using Suc.hyps(2) Suc.prems by (intro Suc.hyps(1)) auto
  finally show ?case .
qed

lemma scan_bound_le: "unat ((n + 31) div 32 :: u32) \<le> 2 ^ 27"
proof -
  have "unat ((n + 31) div 32) = unat (n + 31) div 32" by (simp add: unat_div)
  moreover have "unat (n + 31) < 2 ^ 32" using unsigned_less[of "n + 31"] by simp
  ultimately show ?thesis by simp
qed



lemma word_of_int_small_eq_0:
  "0 \<le> z \<Longrightarrow> z < 2 ^ 32 \<Longrightarrow> (word_of_int z = (0::u32)) = (z = 0)"
  by (auto simp add: word_of_int_eq_0_iff dest: zdvd_imp_le)

lemma ffs_eq_1_iff: "x \<noteq> 0 \<Longrightarrow> (ffs x = 1) = bit x 0"
proof -
  assume nz: "x \<noteq> 0"
  from ffs_lowest_bit[OF nz] have f: "1 \<le> ffs x" "bit x (nat (ffs x - 1))"
    "\<And>j. j < nat (ffs x - 1) \<Longrightarrow> \<not> bit x j" by auto
  show ?thesis
  proof
    assume "ffs x = 1" with f(2) show "bit x 0" by simp
  next
    assume b: "bit x 0"
    have "\<not> 0 < nat (ffs x - 1)" using f(3)[of 0] b by blast
    with f(1) show "ffs x = 1" by linarith
  qed
qed


text \<open>
  Claim C4. \<open>imsic_handle_irq\<close> reads the pending words in index order. Let \<open>k\<close> be the
  index of the first non-zero word among those scanned, \<open>hwirq = 32 * k + ffs(word) - 1\<close>
  and \<open>virq\<close> what \<open>irq_find_mapping\<close> returns for \<open>hwirq\<close>. If \<open>hwirq\<close> is non-zero the
  handler calls \<open>generic_handle_irq virq\<close> (only when \<open>virq\<close> is non-zero) and then writes
  \<open>hwirq\<close> to CLREIPNUM; if \<open>hwirq\<close> is zero it does nothing at all, neither dispatch nor
  clear. \<open>hwirq\<close> is zero exactly when \<open>k = 0\<close> and bit 0 of word 0 is set, which includes
  the case that id 0 is the only pending id.
\<close>

theorem imsic_handle_irq_dispatch:
  assumes "files (primary_imsic_data st) = PrimaryFile"
    and "k < unat ((imsic_data.num_ids (primary_imsic_data st) + 31) div 32)"
    and "\<forall>j<k. eip_word m (primary_imsic_file st) j = 0"
    and "eip_word m (primary_imsic_file st) k \<noteq> 0"
    and "hw = word_of_int (32 * int k + ffs (eip_word m (primary_imsic_file st) k) - 1)"
    and "vq = fm (domain (primary_imsic_data st)) hw"
  shows "(hw \<noteq> 0 \<longrightarrow> vq \<noteq> 0 \<longrightarrow>
            imsic_handle_irq m fm st =
              Some [Generic_handle_irq vq,
                    Mmio_write32 (base (primary_imsic_file st) + ucast IMSIC_REG_CLREIPNUM) hw]) \<and>
         (hw \<noteq> 0 \<longrightarrow> vq = 0 \<longrightarrow>
            imsic_handle_irq m fm st =
              Some [Mmio_write32 (base (primary_imsic_file st) + ucast IMSIC_REG_CLREIPNUM) hw]) \<and>
         (hw = 0 \<longrightarrow> imsic_handle_irq m fm st = Some []) \<and>
         (hw = 0 \<longleftrightarrow> k = 0 \<and> bit (eip_word m (primary_imsic_file st) 0) 0)"
proof -
  let ?w = "eip_word m (primary_imsic_file st) k"
  let ?bound = "(imsic_data.num_ids (primary_imsic_data st) + 31) div 32"
  have scan: "eip_scan m (primary_imsic_file st) ?bound 0 = hw"
    using eip_scan_first[of k ?bound 0 m "primary_imsic_file st"] assms(2-5)
    by (simp add: mult.commute)
  have run: "imsic_handle_irq m fm st =
      (if hw \<noteq> 0 then
         Some ((if vq \<noteq> 0 then [Generic_handle_irq vq] else [])
               @ [Mmio_write32 (base (primary_imsic_file st) + ucast IMSIC_REG_CLREIPNUM) hw])
       else Some [])"
    using assms(1,6) scan
    by (simp add: imsic_handle_irq_def Let_def imsic_clear_pending_def imsic_write_reg_def)
  from ffs_lowest_bit[OF assms(4)] have f: "1 \<le> ffs ?w" "ffs ?w \<le> 32" by auto
  have kb: "int k < 2 ^ 27" using assms(2) scan_bound_le[of "imsic_data.num_ids (primary_imsic_data st)"] by simp
  have z: "(hw = 0) = (32 * int k + ffs ?w - 1 = 0)"
    unfolding assms(5) using f kb by (intro word_of_int_small_eq_0) auto
  have "(32 * int k + ffs ?w - 1 = 0) = (k = 0 \<and> ffs ?w = 1)" using f by auto
  also have "\<dots> = (k = 0 \<and> bit (eip_word m (primary_imsic_file st) 0) 0)"
    using ffs_eq_1_iff[OF assms(4)] by auto
  finally have id0: "(hw = 0) = (k = 0 \<and> bit (eip_word m (primary_imsic_file st) 0) 0)"
    using z by simp
  from run id0 show ?thesis by simp
qed

theorem imsic_handle_irq_dispatch_witness:
  "imsic_handle_irq mmio_id36 (\<lambda>d h. h + 100) st_attached =
      Some [Generic_handle_irq 136, Mmio_write32 0x24000004 36] \<and>
   imsic_handle_irq mmio_id0 (\<lambda>d h. h + 100) st_attached = Some []"
proof -
  have w1: "eip_word mmio_id36 (primary_imsic_file st_attached) 1 = 0x30"
    by (simp add: eip_word_def imsic_read_reg_def st_attached_def mmio_id36_def IMSIC_REG_EIP_BASE_def)
  have w0: "eip_word mmio_id36 (primary_imsic_file st_attached) 0 = 0"
    by (simp add: eip_word_def imsic_read_reg_def st_attached_def mmio_id36_def IMSIC_REG_EIP_BASE_def)
  have v0: "eip_word mmio_id0 (primary_imsic_file st_attached) 0 = 1"
    by (simp add: eip_word_def imsic_read_reg_def st_attached_def mmio_id0_def IMSIC_REG_EIP_BASE_def)
  have f: "ffs 0x30 = 5" "ffs 1 = 1" by (simp_all add: ffs_def)
  have a: "imsic_handle_irq mmio_id36 (\<lambda>d h. h + 100) st_attached =
      Some [Generic_handle_irq 136, Mmio_write32 0x24000004 36]"
    using imsic_handle_irq_dispatch[of st_attached 1 mmio_id36 36 136 "\<lambda>d h. h + 100"] w1 w0 f
    by (simp add: st_attached_def IMSIC_REG_CLREIPNUM_def)
  have b: "imsic_handle_irq mmio_id0 (\<lambda>d h. h + 100) st_attached = Some []"
    using imsic_handle_irq_dispatch[of st_attached 0 mmio_id0 0 100 "\<lambda>d h. h + 100"] v0 f
    by (simp add: st_attached_def)
  from a b show ?thesis by simp
qed


section \<open>Attaching the IMSIC\<close>

lemma imsic_attach_ret: "fst (imsic_attach cl d st) = 0 \<or> fst (imsic_attach cl d st) = - 1"
  by (simp add: imsic_attach_def Let_def split: option.splits)


text \<open>
  Claim C6. \<open>imsic_attach\<close> fails when \<open>imsic_initialized\<close> is already true, and the flag
  stays true; it fails when memory resource 0 is missing and when the IRQ domain cannot
  be created; every failing attach leaves \<open>imsic_initialized\<close> as it was; a successful
  attach sets it.
\<close>

theorem imsic_attach_initialized_flag:
  "(imsic_initialized st \<longrightarrow>
      fst (imsic_attach cl d st) = - 1 \<and> imsic_initialized (snd (snd (imsic_attach cl d st)))) \<and>
   (device_get_resource_mem d 0 = None \<longrightarrow> fst (imsic_attach cl d st) = - 1) \<and>
   (cl (device_get_property_u32 d ''riscv,num-ids'' IMSIC_MAX_IDS) = 0 \<longrightarrow>
      fst (imsic_attach cl d st) = - 1) \<and>
   (fst (imsic_attach cl d st) \<noteq> 0 \<longrightarrow>
      fst (imsic_attach cl d st) = - 1 \<and>
      imsic_initialized (snd (snd (imsic_attach cl d st))) = imsic_initialized st) \<and>
   (fst (imsic_attach cl d st) = 0 \<longrightarrow> imsic_initialized (snd (snd (imsic_attach cl d st))))"
  by (simp add: imsic_attach_def Let_def split: option.splits)

theorem imsic_attach_initialized_flag_witness:
  "fst (imsic_attach (\<lambda>n. 7) dev_ids512 st_boot) = 0 \<and>
   imsic_initialized (snd (snd (imsic_attach (\<lambda>n. 7) dev_ids512 st_boot))) \<and>
   fst (imsic_attach (\<lambda>n. 7) dev_ids512 (snd (snd (imsic_attach (\<lambda>n. 7) dev_ids512 st_boot)))) = - 1 \<and>
   imsic_initialized (snd (snd (imsic_attach (\<lambda>n. 7) dev_ids512 (snd (snd (imsic_attach (\<lambda>n. 7) dev_ids512 st_boot)))))) \<and>
   fst (imsic_attach (\<lambda>n. 0) dev_ids512 st_boot) = - 1 \<and>
   \<not> imsic_initialized (snd (snd (imsic_attach (\<lambda>n. 0) dev_ids512 st_boot)))"
proof -
  have first: "fst (imsic_attach (\<lambda>n. 7) dev_ids512 st_boot) = 0"
    by (simp add: imsic_attach_def dev_ids512_def st_boot_def device_get_resource_mem_def Let_def)
  have nodom: "fst (imsic_attach (\<lambda>n. 0) dev_ids512 st_boot) \<noteq> 0"
    by (simp add: imsic_attach_def dev_ids512_def st_boot_def device_get_resource_mem_def Let_def)
  have boot: "\<not> imsic_initialized st_boot" by (simp add: st_boot_def)
  from imsic_attach_initialized_flag[of st_boot "\<lambda>n. 7" dev_ids512] first
  have init: "imsic_initialized (snd (snd (imsic_attach (\<lambda>n. 7) dev_ids512 st_boot)))" by blast
  from imsic_attach_initialized_flag[of "snd (snd (imsic_attach (\<lambda>n. 7) dev_ids512 st_boot))" "\<lambda>n. 7" dev_ids512] init
  have second: "fst (imsic_attach (\<lambda>n. 7) dev_ids512 (snd (snd (imsic_attach (\<lambda>n. 7) dev_ids512 st_boot)))) = - 1 \<and>
     imsic_initialized (snd (snd (imsic_attach (\<lambda>n. 7) dev_ids512 (snd (snd (imsic_attach (\<lambda>n. 7) dev_ids512 st_boot))))))"
    by blast
  from imsic_attach_initialized_flag[of st_boot "\<lambda>n. 0" dev_ids512] nodom boot
  have third: "fst (imsic_attach (\<lambda>n. 0) dev_ids512 st_boot) = - 1 \<and>
    \<not> imsic_initialized (snd (snd (imsic_attach (\<lambda>n. 0) dev_ids512 st_boot)))" by blast
  from first init second third show ?thesis by blast
qed


text \<open>
  Claim C9, as stated, fails: \<open>imsic_attach\<close> stores the \<open>riscv,num-ids\<close> property without
  comparing it to \<open>IMSIC_MAX_IDS\<close>. With the property 512 the attach succeeds and
  \<open>num_ids\<close> is 512.
\<close>

theorem imsic_attach_num_ids_counterexample:
  "fst (imsic_attach (\<lambda>n. 7) dev_ids512 st_boot) = 0 \<and>
   imsic_file.num_ids (primary_imsic_file (snd (snd (imsic_attach (\<lambda>n. 7) dev_ids512 st_boot)))) = 512 \<and>
   \<not> imsic_file.num_ids (primary_imsic_file (snd (snd (imsic_attach (\<lambda>n. 7) dev_ids512 st_boot)))) \<le> IMSIC_MAX_IDS"
  by (simp add: imsic_attach_def dev_ids512_def st_boot_def device_get_resource_mem_def
      device_get_property_u32_def IMSIC_MAX_IDS_def Let_def)


text \<open>
  Claim C9, amended. After a successful \<open>imsic_attach\<close> the file's \<open>num_ids\<close> is the value
  of the \<open>riscv,num-ids\<close> property when the device has it and 256 (\<open>IMSIC_MAX_IDS\<close>) when
  it has not, and the controller's \<open>num_ids\<close> is the same number. So \<open>num_ids\<close> is at
  most 256 when the property is absent, and otherwise exactly when the property's value
  is.
\<close>

theorem imsic_attach_num_ids:
  assumes "fst (imsic_attach cl d st) = 0"
  shows "imsic_file.num_ids (primary_imsic_file (snd (snd (imsic_attach cl d st)))) =
           (case properties d ''riscv,num-ids'' of Some v \<Rightarrow> v | None \<Rightarrow> 256) \<and>
         imsic_data.num_ids (primary_imsic_data (snd (snd (imsic_attach cl d st)))) =
           imsic_file.num_ids (primary_imsic_file (snd (snd (imsic_attach cl d st)))) \<and>
         (properties d ''riscv,num-ids'' = None \<longrightarrow>
            imsic_file.num_ids (primary_imsic_file (snd (snd (imsic_attach cl d st)))) \<le> IMSIC_MAX_IDS) \<and>
         (\<forall>v. properties d ''riscv,num-ids'' = Some v \<longrightarrow>
            (imsic_file.num_ids (primary_imsic_file (snd (snd (imsic_attach cl d st)))) \<le> IMSIC_MAX_IDS)
              = (v \<le> IMSIC_MAX_IDS))"
  using assms
  by (auto simp add: imsic_attach_def Let_def device_get_property_u32_def IMSIC_MAX_IDS_def
      imsic_data_zero_def split: option.splits if_splits)

theorem imsic_attach_num_ids_witness:
  "fst (imsic_attach (\<lambda>n. 7) dev_default st_boot) = 0 \<and>
   imsic_file.num_ids (primary_imsic_file (snd (snd (imsic_attach (\<lambda>n. 7) dev_default st_boot)))) = 256 \<and>
   imsic_file.num_ids (primary_imsic_file (snd (snd (imsic_attach (\<lambda>n. 7) dev_ids512 st_boot)))) = 512"
proof -
  have a: "fst (imsic_attach (\<lambda>n. 7) dev_default st_boot) = 0"
    by (simp add: imsic_attach_def dev_default_def st_boot_def device_get_resource_mem_def Let_def)
  have b: "fst (imsic_attach (\<lambda>n. 7) dev_ids512 st_boot) = 0"
    by (simp add: imsic_attach_def dev_ids512_def st_boot_def device_get_resource_mem_def Let_def)
  from imsic_attach_num_ids[OF a] imsic_attach_num_ids[OF b] a show ?thesis
    by (simp add: dev_default_def dev_ids512_def)
qed

section \<open>Lists in the heap\<close>

lemma dpath_snoc:
  "dpath h p (xs @ [d]) q = (dpath h p xs d \<and> list_next (h d) = q \<and> list_prev (h q) = d)"
  by (induction xs arbitrary: p) auto

lemma dpath_frame:
  assumes "\<forall>x \<in> set (p # ds). list_next (h' x) = list_next (h x)"
    and "\<forall>x \<in> set (ds @ [q]). list_prev (h' x) = list_prev (h x)"
  shows "dpath h' p ds q = dpath h p ds q"
  using assms by (induction ds arbitrary: p) auto

lemma dpath_unique:
  "dpath h p xs q \<Longrightarrow> dpath h p ys q \<Longrightarrow> q \<notin> set xs \<Longrightarrow> q \<notin> set ys \<Longrightarrow> xs = ys"
proof (induction xs arbitrary: p ys)
  case Nil
  then show ?case by (cases ys) auto
next
  case (Cons x xs)
  then show ?case by (cases ys) auto
qed

lemma dpath_prev_last: "dpath h p ds q \<Longrightarrow> list_prev (h q) = last (p # ds)"
  by (induction ds arbitrary: p) auto

lemma dpath_next_hd: "dpath h p ds q \<Longrightarrow> list_next (h p) = hd (ds @ [q])"
  by (cases ds) auto

text \<open>Changing the end of a path: the last node's next and the new end's prev.\<close>

lemma dpath_retarget:
  assumes "dpath h p ds q" and "distinct (p # ds)"
    and "\<forall>x \<in> set (p # ds). x \<noteq> last (p # ds) \<longrightarrow> list_next (h' x) = list_next (h x)"
    and "list_next (h' (last (p # ds))) = q'"
    and "\<forall>x \<in> set ds. list_prev (h' x) = list_prev (h x)"
    and "list_prev (h' q') = last (p # ds)"
  shows "dpath h' p ds q'"
  using assms
proof (induction ds arbitrary: p)
  case Nil
  then show ?case by simp
next
  case (Cons d ds)
  have "dpath h' d ds q'"
  proof (rule Cons.IH)
    show "dpath h d ds q" using Cons.prems(1) by simp
    show "distinct (d # ds)" using Cons.prems(2) by simp
    show "\<forall>x\<in>set (d # ds). x \<noteq> last (d # ds) \<longrightarrow> list_next (h' x) = list_next (h x)"
      using Cons.prems(3) by auto
    show "list_next (h' (last (d # ds))) = q'" using Cons.prems(4) by simp
    show "\<forall>x\<in>set ds. list_prev (h' x) = list_prev (h x)" using Cons.prems(5) by simp
    show "list_prev (h' q') = last (d # ds)" using Cons.prems(6) by simp
  qed
  moreover have "p \<noteq> last (p # d # ds)" using Cons.prems(2) by (metis distinct.simps(2) last_ConsR last_in_set list.distinct(1))
  then have "list_next (h' p) = list_next (h p)" using Cons.prems(3) by simp
  moreover have "list_prev (h' d) = list_prev (h d)" using Cons.prems(5) by simp
  ultimately show ?case using Cons.prems(1) by simp
qed

text \<open>Changing the start of a path.\<close>

lemma dpath_restart:
  assumes "dpath h d ds q" and "d \<notin> set ds" "p' \<notin> set ds"
    and "list_next (h' p') = list_next (h d)"
    and "list_prev (h' (list_next (h d))) = p'"
    and "\<forall>x \<in> set ds. list_next (h' x) = list_next (h x)"
    and "\<forall>x \<in> set (ds @ [q]). x \<noteq> list_next (h d) \<longrightarrow> list_prev (h' x) = list_prev (h x)"
    and "distinct ds" "q \<notin> set ds"
  shows "dpath h' p' ds q"
proof (cases ds)
  case Nil
  with assms show ?thesis by simp
next
  case (Cons y ys)
  with assms have y: "list_next (h d) = y" and rest: "dpath h y ys q" by simp_all
  have "dpath h' y ys q = dpath h y ys q"
  proof (rule dpath_frame)
    show "\<forall>x\<in>set (y # ys). list_next (h' x) = list_next (h x)" using assms(6) Cons by simp
    show "\<forall>x\<in>set (ys @ [q]). list_prev (h' x) = list_prev (h x)"
      using assms(7,8,9) Cons y by auto
  qed
  with rest assms(4,5) y Cons show ?thesis by simp
qed


lemma dlist_lists_cong: "heads s' = heads s \<Longrightarrow> dlist s' md ds = dlist s md ds"
  by (simp add: dlist_def)

lemma dlist_unlink_head:
  assumes "dlist s md (d # ds)"
  shows "dlist (list_unlink d s) md ds"
proof -
  let ?h = "heads s"
  let ?h' = "heads (list_unlink d s)"
  from assms have path: "dpath ?h d ds md" and nx: "list_next (?h md) = d" and pv: "list_prev (?h d) = md"
    and dist: "distinct (md # d # ds)" by (auto simp: dlist_def)
  from dpath_next_hd[OF path] have b: "list_next (?h d) = hd (ds @ [md])" .
  have bd: "list_next (?h d) \<noteq> d" using b dist by (cases ds) auto
  have h': "?h' = (?h(list_next (?h d) := (?h (list_next (?h d)))\<lparr>list_prev := md\<rparr>))
                   (md := ((?h(list_next (?h d) := (?h (list_next (?h d)))\<lparr>list_prev := md\<rparr>)) md)
                            \<lparr>list_next := list_next (?h d)\<rparr>)"
    using bd pv by (simp add: list_unlink_def set_list_prev_def set_list_next_def Let_def)
  have "dpath ?h' md ds md"
  proof (rule dpath_restart[OF path])
    show "d \<notin> set ds" "md \<notin> set ds" "distinct ds" "md \<notin> set ds" using dist by auto
    show "list_next (?h' md) = list_next (?h d)" by (simp add: h')
    show "list_prev (?h' (list_next (?h d))) = md" using pv by (simp add: h')
    show "\<forall>x\<in>set ds. list_next (?h' x) = list_next (?h x)" using dist by (auto simp add: h')
    show "\<forall>x\<in>set (ds @ [md]). x \<noteq> list_next (?h d) \<longrightarrow> list_prev (?h' x) = list_prev (?h x)"
      by (auto simp add: h')
  qed
  with dist show ?thesis by (simp add: dlist_def)
qed

lemma dlist_unlink_last:
  assumes "dlist s md (ds @ [d])"
  shows "dlist (list_unlink d s) md ds"
proof -
  let ?h = "heads s"
  let ?h' = "heads (list_unlink d s)"
  let ?t = "last (md # ds)"
  from assms have path: "dpath ?h md ds d" and nx: "list_next (?h d) = md" and pv: "list_prev (?h md) = d"
    and dist: "distinct (md # ds)" and d: "d \<notin> set (md # ds)" by (auto simp: dlist_def dpath_snoc)
  from dpath_prev_last[OF path] have a: "list_prev (?h d) = ?t" .
  have tin: "?t \<in> set (md # ds)" by (rule last_in_set) simp
  have h': "?h' = (?h(md := (?h md)\<lparr>list_prev := ?t\<rparr>))
                   (?t := ((?h(md := (?h md)\<lparr>list_prev := ?t\<rparr>)) ?t)\<lparr>list_next := md\<rparr>)"
    using d nx a by (simp add: list_unlink_def set_list_prev_def set_list_next_def Let_def)
  have "dpath ?h' md ds md"
  proof (rule dpath_retarget[OF path dist])
    show "\<forall>x\<in>set (md # ds). x \<noteq> ?t \<longrightarrow> list_next (?h' x) = list_next (?h x)" by (auto simp add: h')
    show "list_next (?h' ?t) = md" by (simp add: h')
    show "\<forall>x\<in>set ds. list_prev (?h' x) = list_prev (?h x)" using dist by (auto simp add: h')
    show "list_prev (?h' md) = ?t" by (simp add: h')
  qed
  with dist show ?thesis by (simp add: dlist_def)
qed

lemma list_add_state:
  assumes "md \<noteq> 0" "p \<noteq> 0"
  shows "fst (msi_desc_list_add_locked md p s) = 0"
    and "live (snd (msi_desc_list_add_locked md p s)) = live s"
    and "devs (snd (msi_desc_list_add_locked md p s)) = devs s"
    and "domains (snd (msi_desc_list_add_locked md p s)) = domains s"
    and "virqs (snd (msi_desc_list_add_locked md p s)) = virqs s"
    and "regs (snd (msi_desc_list_add_locked md p s)) = (regs s)(md := (regs s md)\<lparr>num_vectors := num_vectors (regs s md) + 1\<rparr>)"
    and "descs (snd (msi_desc_list_add_locked md p s)) = (descs s)(p := (descs s p)\<lparr>refcount := refcount (descs s p) + 1\<rparr>)"
  using assms
  by (simp_all add: msi_desc_list_add_locked_def Let_def set_list_next_def set_list_prev_def
      set_num_vectors_def set_refcount_def)

lemma dlist_add_tail:
  assumes "dlist s md ds" and "p \<notin> set (md # ds)" and "md \<noteq> 0" "p \<noteq> 0"
  shows "dlist (snd (msi_desc_list_add_locked md p s)) md (ds @ [p])"
proof -
  let ?h = "heads s"
  let ?h' = "heads (snd (msi_desc_list_add_locked md p s))"
  let ?t = "last (md # ds)"
  from assms have path: "dpath ?h md ds md" and dist: "distinct (md # ds)" by (auto simp: dlist_def)
  from dpath_prev_last[OF path] have a: "list_prev (?h md) = ?t" .
  have tin: "?t \<in> set (md # ds)" by (rule last_in_set) simp
  with assms(2) have tp: "?t \<noteq> p" by metis
  from assms(2) have pmd: "p \<noteq> md" by simp
  have nxt: "list_next (?h' x) = (if x = ?t then p else if x = p then md else list_next (?h x))" for x
    using assms(3,4) a tp pmd
    by (simp add: msi_desc_list_add_locked_def Let_def set_list_next_def set_list_prev_def
      set_num_vectors_def set_refcount_def)
  have prv: "list_prev (?h' x) = (if x = md then p else if x = p then ?t else list_prev (?h x))" for x
    using assms(3,4) a tp pmd
    by (simp add: msi_desc_list_add_locked_def Let_def set_list_next_def set_list_prev_def
      set_num_vectors_def set_refcount_def)
  have "dpath ?h' md ds p"
  proof (rule dpath_retarget[OF path dist])
    show "\<forall>x\<in>set (md # ds). x \<noteq> ?t \<longrightarrow> list_next (?h' x) = list_next (?h x)"
      using assms(2) by (auto simp add: nxt)
    show "list_next (?h' ?t) = p" by (simp add: nxt)
    show "\<forall>x\<in>set ds. list_prev (?h' x) = list_prev (?h x)" using dist assms(2) by (auto simp add: prv)
    show "list_prev (?h' p) = ?t" using pmd by (simp add: prv)
  qed
  moreover have "list_next (?h' p) = md" using tp by (simp add: nxt)
  moreover have "list_prev (?h' md) = p" by (simp add: prv)
  ultimately show ?thesis using dist assms(2) by (simp add: dlist_def dpath_snoc)
qed

lemma kfree_fields [simp]:
  "live (kfree p s) = live s - {p}"
  "heads (kfree p s) = heads s"
  "descs (kfree p s) = descs s"
  "regs (kfree p s) = regs s"
  "devs (kfree p s) = devs s"
  "domains (kfree p s) = domains s"
  "virqs (kfree p s) = virqs s"
  by (simp_all add: kfree_def)

lemma set_list_next_fields [simp]:
  "live (set_list_next p v s) = live s"
  "heads (set_list_next p v s) = (heads s)(p := (heads s p)\<lparr>list_next := v\<rparr>)"
  "descs (set_list_next p v s) = descs s"
  "regs (set_list_next p v s) = regs s"
  "devs (set_list_next p v s) = devs s"
  "domains (set_list_next p v s) = domains s"
  "virqs (set_list_next p v s) = virqs s"
  by (simp_all add: set_list_next_def)

lemma set_list_prev_fields [simp]:
  "live (set_list_prev p v s) = live s"
  "heads (set_list_prev p v s) = (heads s)(p := (heads s p)\<lparr>list_prev := v\<rparr>)"
  "descs (set_list_prev p v s) = descs s"
  "regs (set_list_prev p v s) = regs s"
  "devs (set_list_prev p v s) = devs s"
  "domains (set_list_prev p v s) = domains s"
  "virqs (set_list_prev p v s) = virqs s"
  by (simp_all add: set_list_prev_def)

lemma set_refcount_fields [simp]:
  "live (set_refcount p v s) = live s"
  "heads (set_refcount p v s) = heads s"
  "descs (set_refcount p v s) = (descs s)(p := (descs s p)\<lparr>refcount := v\<rparr>)"
  "regs (set_refcount p v s) = regs s"
  "devs (set_refcount p v s) = devs s"
  "domains (set_refcount p v s) = domains s"
  "virqs (set_refcount p v s) = virqs s"
  by (simp_all add: set_refcount_def)

lemma set_dev_fields [simp]:
  "live (set_dev p v s) = live s"
  "heads (set_dev p v s) = heads s"
  "descs (set_dev p v s) = (descs s)(p := (descs s p)\<lparr>dev := v\<rparr>)"
  "regs (set_dev p v s) = regs s"
  "devs (set_dev p v s) = devs s"
  "domains (set_dev p v s) = domains s"
  "virqs (set_dev p v s) = virqs s"
  by (simp_all add: set_dev_def)

lemma set_hwirq_fields [simp]:
  "live (set_hwirq p v s) = live s"
  "heads (set_hwirq p v s) = heads s"
  "descs (set_hwirq p v s) = (descs s)(p := (descs s p)\<lparr>hwirq := v\<rparr>)"
  "regs (set_hwirq p v s) = regs s"
  "devs (set_hwirq p v s) = devs s"
  "domains (set_hwirq p v s) = domains s"
  "virqs (set_hwirq p v s) = virqs s"
  by (simp_all add: set_hwirq_def)

lemma set_irq_fields [simp]:
  "live (set_irq p v s) = live s"
  "heads (set_irq p v s) = heads s"
  "descs (set_irq p v s) = (descs s)(p := (descs s p)\<lparr>irq := v\<rparr>)"
  "regs (set_irq p v s) = regs s"
  "devs (set_irq p v s) = devs s"
  "domains (set_irq p v s) = domains s"
  "virqs (set_irq p v s) = virqs s"
  by (simp_all add: set_irq_def)

lemma set_msi_attrib_fields [simp]:
  "live (set_msi_attrib p v s) = live s"
  "heads (set_msi_attrib p v s) = heads s"
  "descs (set_msi_attrib p v s) = (descs s)(p := (descs s p)\<lparr>msi_attrib := v\<rparr>)"
  "regs (set_msi_attrib p v s) = regs s"
  "devs (set_msi_attrib p v s) = devs s"
  "domains (set_msi_attrib p v s) = domains s"
  "virqs (set_msi_attrib p v s) = virqs s"
  by (simp_all add: set_msi_attrib_def)

lemma set_num_vectors_fields [simp]:
  "live (set_num_vectors p v s) = live s"
  "heads (set_num_vectors p v s) = heads s"
  "descs (set_num_vectors p v s) = descs s"
  "regs (set_num_vectors p v s) = (regs s)(p := (regs s p)\<lparr>num_vectors := v\<rparr>)"
  "devs (set_num_vectors p v s) = devs s"
  "domains (set_num_vectors p v s) = domains s"
  "virqs (set_num_vectors p v s) = virqs s"
  by (simp_all add: set_num_vectors_def)

lemma set_msi_data_fields [simp]:
  "live (set_msi_data p v s) = live s"
  "heads (set_msi_data p v s) = heads s"
  "descs (set_msi_data p v s) = descs s"
  "regs (set_msi_data p v s) = regs s"
  "devs (set_msi_data p v s) = (devs s)(p := (devs s p)\<lparr>msi_data := v\<rparr>)"
  "domains (set_msi_data p v s) = domains s"
  "virqs (set_msi_data p v s) = virqs s"
  by (simp_all add: set_msi_data_def)

lemma irq_domain_free_hwirq_range_fields [simp]:
  "live (irq_domain_free_hwirq_range d b n s) = live s"
  "heads (irq_domain_free_hwirq_range d b n s) = heads s"
  "descs (irq_domain_free_hwirq_range d b n s) = descs s"
  "regs (irq_domain_free_hwirq_range d b n s) = regs s"
  "devs (irq_domain_free_hwirq_range d b n s) = devs s"
  "domains (irq_domain_free_hwirq_range d b n s) = (domains s)(d := (domains s d)\<lparr>reserved := reserved (domains s d) - hwirq_range b n\<rparr>)"
  "virqs (irq_domain_free_hwirq_range d b n s) = virqs s"
  by (simp_all add: irq_domain_free_hwirq_range_def)

lemma irq_domain_reserve_fields [simp]:
  "live (irq_domain_reserve d b n s) = live s"
  "heads (irq_domain_reserve d b n s) = heads s"
  "descs (irq_domain_reserve d b n s) = descs s"
  "regs (irq_domain_reserve d b n s) = regs s"
  "devs (irq_domain_reserve d b n s) = devs s"
  "domains (irq_domain_reserve d b n s) = (domains s)(d := (domains s d)\<lparr>reserved := reserved (domains s d) \<union> hwirq_range b n\<rparr>)"
  "virqs (irq_domain_reserve d b n s) = virqs s"
  by (simp_all add: irq_domain_reserve_def)

lemma irq_dispose_mapping_fields [simp]:
  "live (irq_dispose_mapping v s) = live s"
  "heads (irq_dispose_mapping v s) = heads s"
  "descs (irq_dispose_mapping v s) = descs s"
  "regs (irq_dispose_mapping v s) = regs s"
  "devs (irq_dispose_mapping v s) = devs s"
  "domains (irq_dispose_mapping v s) = domains s"
  "virqs (irq_dispose_mapping v s) = (virqs s)(v := None)"
  by (simp_all add: irq_dispose_mapping_def)

lemma kmalloc_desc_fields [simp]:
  "live (kmalloc_desc p s) = insert p (live s)"
  "heads (kmalloc_desc p s) = (heads s)(p := \<lparr>list_next = 0, list_prev = 0\<rparr>)"
  "descs (kmalloc_desc p s) = (descs s)(p := desc_zero)"
  "regs (kmalloc_desc p s) = regs s"
  "devs (kmalloc_desc p s) = devs s"
  "domains (kmalloc_desc p s) = domains s"
  "virqs (kmalloc_desc p s) = virqs s"
  by (simp_all add: kmalloc_desc_def)

lemma kmalloc_msi_data_fields [simp]:
  "live (kmalloc_msi_data p s) = insert p (live s)"
  "heads (kmalloc_msi_data p s) = (heads s)(p := \<lparr>list_next = 0, list_prev = 0\<rparr>)"
  "descs (kmalloc_msi_data p s) = descs s"
  "regs (kmalloc_msi_data p s) = (regs s)(p := \<lparr>num_vectors = 0\<rparr>)"
  "devs (kmalloc_msi_data p s) = devs s"
  "domains (kmalloc_msi_data p s) = domains s"
  "virqs (kmalloc_msi_data p s) = virqs s"
  by (simp_all add: kmalloc_msi_data_def)

lemma list_unlink_fields [simp]:
  "live (list_unlink d s) = live s"
  "descs (list_unlink d s) = descs s"
  "regs (list_unlink d s) = regs s"
  "devs (list_unlink d s) = devs s"
  "domains (list_unlink d s) = domains s"
  "virqs (list_unlink d s) = virqs s"
  by (simp_all add: list_unlink_def Let_def)

lemma dlist_heads_cong_simps [simp]:
  "dlist (kfree p s) md ds = dlist s md ds"
  "dlist (set_refcount p v s) md ds = dlist s md ds"
  "dlist (set_dev p a s) md ds = dlist s md ds"
  "dlist (set_hwirq p w s) md ds = dlist s md ds"
  "dlist (set_irq p w s) md ds = dlist s md ds"
  "dlist (set_msi_attrib p w s) md ds = dlist s md ds"
  "dlist (set_num_vectors p n s) md ds = dlist s md ds"
  "dlist (set_msi_data p a s) md ds = dlist s md ds"
  "dlist (irq_domain_free_hwirq_range d b k s) md ds = dlist s md ds"
  "dlist (irq_dispose_mapping w s) md ds = dlist s md ds"
  "dlist (irq_domain_reserve d b k s) md ds = dlist s md ds"
  by (simp_all add: dlist_def)

lemma dlist_next_hd: "dlist s md ds \<Longrightarrow> list_next (heads s md) = hd (ds @ [md])"
  by (simp add: dlist_def dpath_next_hd)

lemma dlist_Cons_next: "dlist s md (d # ds) \<Longrightarrow> list_next (heads s d) = hd (ds @ [md])"
  by (simp add: dlist_def dpath_next_hd)

lemma dlist_Nil: "dlist s md [] = (list_next (heads s md) = md \<and> list_prev (heads s md) = md)"
  by (simp add: dlist_def)

lemma free_walk_ok:
  assumes "dlist s md ds"
  shows "\<exists>s'. free_walk dv md (list_next (heads s md)) s = Some s' \<and> dlist s' md [] \<and>
           num_vectors (regs s' md) = num_vectors (regs s md) - int (length ds) \<and>
           live s' = live s - set ds \<and> descs s' = descs s \<and> devs s' = devs s"
  using assms
proof (induction ds arbitrary: s)
  case Nil
  then have "list_next (heads s md) = md" by (simp add: dlist_Nil)
  with Nil show ?case by (subst free_walk.simps) simp
next
  case (Cons d ds)
  define s0 where "s0 = irq_domain_free_hwirq_range (device.msi_domain (devs s dv)) (hwirq (descs s d)) 1
      (if irq (descs s d) \<noteq> 0 then irq_dispose_mapping (irq (descs s d)) s else s)"
  define s1 where "s1 = kfree d (set_num_vectors md (num_vectors (regs s md) - 1) (list_unlink d s0))"
  have hd0: "heads s0 = heads s" and f0: "descs s0 = descs s" "regs s0 = regs s" "live s0 = live s" "devs s0 = devs s"
    by (simp_all add: s0_def)
  from Cons.prems have l0: "dlist s0 md (d # ds)" by (simp add: dlist_def hd0)
  then have l1: "dlist s1 md ds" by (simp add: s1_def dlist_unlink_head)
  from Cons.prems have nx: "list_next (heads s md) = d" and dmd: "d \<noteq> md"
    by (auto simp: dlist_def)
  have nxt: "list_next (heads s d) = list_next (heads s1 md)"
    using dlist_Cons_next[OF Cons.prems] dlist_next_hd[OF l1] by simp
  have step: "free_walk dv md (list_next (heads s md)) s = free_walk dv md (list_next (heads s1 md)) s1"
    unfolding nx
    by (subst free_walk.simps) (simp add: dmd s1_def s0_def nxt[unfolded s1_def s0_def] Let_def)
  from Cons.IH[OF l1] obtain s' where r: "free_walk dv md (list_next (heads s1 md)) s1 = Some s'"
    "dlist s' md []" "num_vectors (regs s' md) = num_vectors (regs s1 md) - int (length ds)"
    "live s' = live s1 - set ds" "descs s' = descs s1" "devs s' = devs s1" by blast
  have "num_vectors (regs s1 md) = num_vectors (regs s md) - 1" by (simp add: s1_def f0)
  moreover have "live s1 = live s - {d}" "descs s1 = descs s" "devs s1 = devs s" by (simp_all add: s1_def f0)
  ultimately show ?case using r step by auto
qed

section \<open>The pointer-following loops\<close>

lemma cleanup_walk_ok:
  assumes "dlist s md ds"
  shows "\<exists>s'. cleanup_walk md (list_next (heads s md)) s = Some s' \<and> dlist s' md [] \<and>
           live s' = live s - {p \<in> set ds. refcount (descs s p) = 1} \<and>
           (\<forall>p \<in> set ds. descs s' p = (descs s p)\<lparr>refcount := refcount (descs s p) - 1\<rparr>) \<and>
           (\<forall>p. p \<notin> set ds \<longrightarrow> descs s' p = descs s p) \<and>
           regs s' = regs s \<and> devs s' = devs s \<and> domains s' = domains s"
  using assms
proof (induction ds arbitrary: s)
  case Nil
  then have "list_next (heads s md) = md" by (simp add: dlist_Nil)
  with Nil show ?case by (subst cleanup_walk.simps) simp
next
  case (Cons d ds)
  define s0 where "s0 = set_refcount d (refcount (descs s d) - 1) (list_unlink d s)"
  define s1 where "s1 = (if refcount (descs s0 d) = 0 then kfree d s0 else s0)"
  from Cons.prems have l1: "dlist s1 md ds" by (simp add: s1_def s0_def dlist_unlink_head)
  from Cons.prems have nx: "list_next (heads s md) = d" and dmd: "d \<noteq> md" and dds: "d \<notin> set ds"
    by (auto simp: dlist_def)
  have nxt: "list_next (heads s d) = list_next (heads s1 md)"
    using dlist_Cons_next[OF Cons.prems] dlist_next_hd[OF l1] by simp
  have step: "cleanup_walk md (list_next (heads s md)) s = cleanup_walk md (list_next (heads s1 md)) s1"
    unfolding nx
    by (subst cleanup_walk.simps) (simp add: dmd nxt[unfolded s1_def s0_def] s1_def s0_def Let_def)
  from Cons.IH[OF l1] obtain s' where r: "cleanup_walk md (list_next (heads s1 md)) s1 = Some s'"
    "dlist s' md []" "live s' = live s1 - {p \<in> set ds. refcount (descs s1 p) = 1}"
    "\<forall>p \<in> set ds. descs s' p = (descs s1 p)\<lparr>refcount := refcount (descs s1 p) - 1\<rparr>"
    "\<forall>p. p \<notin> set ds \<longrightarrow> descs s' p = descs s1 p"
    "regs s' = regs s1" "devs s' = devs s1" "domains s' = domains s1" by blast
  have d1: "descs s1 = (descs s)(d := (descs s d)\<lparr>refcount := refcount (descs s d) - 1\<rparr>)"
    by (simp add: s1_def s0_def)
  have l: "live s1 = live s - {p. p = d \<and> refcount (descs s d) = 1}"
    by (auto simp add: s1_def s0_def)
  have o: "regs s1 = regs s" "devs s1 = devs s" "domains s1 = domains s"
    by (simp_all add: s1_def s0_def)
  have "live s' = live s - {p \<in> set (d # ds). refcount (descs s p) = 1}"
    using r(3) l d1 dds by auto
  moreover have "\<forall>p \<in> set (d # ds). descs s' p = (descs s p)\<lparr>refcount := refcount (descs s p) - 1\<rparr>"
    using r(4,5) d1 dds by auto
  moreover have "\<forall>p. p \<notin> set (d # ds) \<longrightarrow> descs s' p = descs s p"
    using r(5) d1 by auto
  ultimately show ?case using r(1,2,6,7,8) o step by simp
qed

lemma cleanup_find_skip:
  assumes "dpath (heads s) p xs q" and "\<forall>x \<in> set xs. x \<noteq> md \<and> hwirq (descs s x) \<noteq> target"
  shows "cleanup_find md target (list_next (heads s p)) s = cleanup_find md target q s"
  using assms
proof (induction xs arbitrary: p)
  case Nil
  then show ?case by simp
next
  case (Cons x xs)
  then have nx: "list_next (heads s p) = x" and rest: "dpath (heads s) x xs q"
    and x: "x \<noteq> md" "hwirq (descs s x) \<noteq> target" by simp_all
  have "cleanup_find md target x s = cleanup_find md target (list_next (heads s x)) s"
    using x by (subst cleanup_find.simps) simp
  also have "\<dots> = cleanup_find md target q s" using Cons.IH[OF rest] Cons.prems(2) by simp
  finally show ?case by (simp add: nx)
qed

lemma cleanup_find_last:
  assumes "dlist s md (ds @ [d])" and "hwirq (descs s d) = target"
    and "\<forall>x \<in> set ds. hwirq (descs s x) \<noteq> target"
  shows "cleanup_find md target (list_next (heads s md)) s =
           Some (kfree d (set_num_vectors md (num_vectors (regs s md) - 1)
                   (list_unlink d (irq_dispose_mapping (irq (descs s d)) s))))"
proof -
  from assms(1) have path: "dpath (heads s) md ds d" and nin: "md \<notin> set ds" and dmd: "d \<noteq> md"
    by (auto simp: dlist_def dpath_snoc)
  have "cleanup_find md target (list_next (heads s md)) s = cleanup_find md target d s"
    using cleanup_find_skip[OF path, of md target] assms(3) nin by auto
  also have "\<dots> = Some (kfree d (set_num_vectors md (num_vectors (regs s md) - 1)
                   (list_unlink d (irq_dispose_mapping (irq (descs s d)) s))))"
    using dmd assms(2) by (subst cleanup_find.simps) (simp add: Let_def)
  finally show ?thesis .
qed

lemma word_offset_inj:
  "j < 2 ^ 32 \<Longrightarrow> k < 2 ^ 32 \<Longrightarrow> (b :: u32) + of_nat j = b + of_nat k \<Longrightarrow> j = k"
  by (simp add: word_of_nat_eq_iff take_bit_nat_eq_self)

lemma cleanup_loop_ok:
  assumes "dlist s md (ds @ news)"
    and "\<forall>j < length news. hwirq (descs s (news ! j)) = hwirq_base + of_nat j"
    and "\<forall>x \<in> set ds. hwirq (descs s x) \<notin> hwirq_range hwirq_base (length news)"
    and "length news \<le> 2 ^ 32"
  shows "\<exists>s'. cleanup_loop md hwirq_base (length news) s = Some s' \<and> dlist s' md ds \<and>
           num_vectors (regs s' md) = num_vectors (regs s md) - int (length news) \<and>
           live s' = live s - set news \<and> descs s' = descs s \<and> devs s' = devs s \<and>
           domains s' = domains s \<and> (\<forall>x. x \<noteq> md \<longrightarrow> regs s' x = regs s x)"
  using assms
proof (induction news arbitrary: s rule: rev_induct)
  case Nil
  then show ?case by simp
next
  case (snoc d ns)
  let ?target = "hwirq_base + of_nat (length ns)"
  define s1 where "s1 = kfree d (set_num_vectors md (num_vectors (regs s md) - 1)
                   (list_unlink d (irq_dispose_mapping (irq (descs s d)) s)))"
  from snoc.prems(1) have l: "dlist s md ((ds @ ns) @ [d])" by simp
  have hd: "hwirq (descs s d) = ?target" using snoc.prems(2)[rule_format, of "length ns"] by simp
  have hns: "hwirq (descs s (ns ! j)) = hwirq_base + of_nat j" if "j < length ns" for j
    using snoc.prems(2)[rule_format, of j] that by (simp add: nth_append)
  have a: "\<forall>x \<in> set ds. hwirq (descs s x) \<noteq> ?target"
    using snoc.prems(3) by (auto simp: hwirq_range_def)
  have b: "\<forall>x \<in> set ns. hwirq (descs s x) \<noteq> ?target"
  proof
    fix x assume "x \<in> set ns"
    then obtain j where j: "j < length ns" "x = ns ! j" by (auto simp: in_set_conv_nth)
    have "hwirq_base + of_nat j \<noteq> ?target"
      using word_offset_inj[of j "length ns" hwirq_base] j(1) snoc.prems(4) by auto
    with hns[OF j(1)] j(2) show "hwirq (descs s x) \<noteq> ?target" by simp
  qed
  have find: "cleanup_find md ?target (list_next (heads s md)) s = Some s1"
    unfolding s1_def using cleanup_find_last[OF l hd] a b by auto
  have l1: "dlist s1 md (ds @ ns)"
  proof -
    have "dlist (irq_dispose_mapping (irq (descs s d)) s) md ((ds @ ns) @ [d])" using l by simp
    from dlist_unlink_last[OF this] show ?thesis by (simp add: s1_def)
  qed
  have f1: "descs s1 = descs s" "devs s1 = devs s" "domains s1 = domains s" "live s1 = live s - {d}"
    "num_vectors (regs s1 md) = num_vectors (regs s md) - 1" "\<And>x. x \<noteq> md \<Longrightarrow> regs s1 x = regs s x"
    by (simp_all add: s1_def)
  have "\<exists>s'. cleanup_loop md hwirq_base (length ns) s1 = Some s' \<and> dlist s' md ds \<and>
           num_vectors (regs s' md) = num_vectors (regs s1 md) - int (length ns) \<and>
           live s' = live s1 - set ns \<and> descs s' = descs s1 \<and> devs s' = devs s1 \<and>
           domains s' = domains s1 \<and> (\<forall>x. x \<noteq> md \<longrightarrow> regs s' x = regs s1 x)"
  proof (rule snoc.IH[OF l1])
    show "\<forall>j<length ns. hwirq (descs s1 (ns ! j)) = hwirq_base + of_nat j" using hns by (simp add: f1)
    show "\<forall>x\<in>set ds. hwirq (descs s1 x) \<notin> hwirq_range hwirq_base (length ns)"
      using snoc.prems(3) by (auto simp: f1 hwirq_range_def)
    show "length ns \<le> 2 ^ 32" using snoc.prems(4) by simp
  qed
  then obtain s' where r: "cleanup_loop md hwirq_base (length ns) s1 = Some s'" "dlist s' md ds"
    "num_vectors (regs s' md) = num_vectors (regs s1 md) - int (length ns)"
    "live s' = live s1 - set ns" "descs s' = descs s1" "devs s' = devs s1"
    "domains s' = domains s1" "\<forall>x. x \<noteq> md \<longrightarrow> regs s' x = regs s1 x" by blast
  have "cleanup_loop md hwirq_base (length (ns @ [d])) s = Some s'"
    using find r(1) by simp
  moreover have "live s' = live s - set (ns @ [d])" using r(4) f1(4) by auto
  ultimately show ?case using r f1 by auto
qed

section \<open>The descriptor population loop\<close>

lemma dlist_frame:
  "\<forall>x \<in> set (md # ds). heads s' x = heads s x \<Longrightarrow> dlist s' md ds = dlist s md ds"
  unfolding dlist_def using dpath_frame[of md ds "heads s'" "heads s" md] by auto

lemma populate_step_oom:
  assumes "i < unat nvec" "env_kmalloc env i = 0"
  shows "populate env dv md hwirq_base flags nvec i s = Inl (Out_of_memory, i, s)"
  using assms by (subst populate.simps) (simp add: msi_desc_alloc_internal_def)

lemma populate_step_nomap:
  assumes "i < unat nvec" "env_kmalloc env i \<noteq> 0" "env_virq env i = 0"
  shows "populate env dv md hwirq_base flags nvec i s =
           Inl (Mapping_failed, i, iter_fail_state env dv hwirq_base flags i s)"
  using assms
  by (subst populate.simps)
     (simp add: msi_desc_alloc_internal_def irq_create_mapping_def iter_fail_state_def Let_def)

lemma populate_step_ok:
  assumes "i < unat nvec" "env_kmalloc env i \<noteq> 0" "env_virq env i \<noteq> 0" "md \<noteq> 0"
  shows "populate env dv md hwirq_base flags nvec i s =
           populate env dv md hwirq_base flags nvec (i + 1) (iter_state env dv md hwirq_base flags i s)"
  using assms
  by (subst populate.simps)
     (simp add: msi_desc_alloc_internal_def irq_create_mapping_def iter_state_def Let_def
        case_prod_beta list_add_state)

lemma iter_fail_state_fields:
  assumes "env_kmalloc env i \<noteq> 0" "env_kmalloc env i \<notin> live s"
  shows "live (iter_fail_state env dv hwirq_base flags i s) = live s"
    and "\<forall>x. x \<noteq> env_kmalloc env i \<longrightarrow> heads (iter_fail_state env dv hwirq_base flags i s) x = heads s x"
    and "\<forall>x. x \<noteq> env_kmalloc env i \<longrightarrow> descs (iter_fail_state env dv hwirq_base flags i s) x = descs s x"
    and "regs (iter_fail_state env dv hwirq_base flags i s) = regs s"
    and "devs (iter_fail_state env dv hwirq_base flags i s) = devs s"
    and "domains (iter_fail_state env dv hwirq_base flags i s) = domains s"
  using assms
  by (auto simp add: iter_fail_state_def msi_desc_alloc_internal_def Let_def)

lemma iter_state_fields:
  assumes "env_kmalloc env i \<noteq> 0" "env_virq env i \<noteq> 0" "md \<noteq> 0"
  shows "live (iter_state env dv md hwirq_base flags i s) = insert (env_kmalloc env i) (live s)"
    and "descs (iter_state env dv md hwirq_base flags i s) =
           (descs s)(env_kmalloc env i :=
              \<lparr>dev = dv, hwirq = hwirq_base + of_nat i, irq = env_virq env i,
               msi_attrib = flags AND 0xFFFF, multiple = 0, refcount = 2\<rparr>)"
    and "regs (iter_state env dv md hwirq_base flags i s) =
           (regs s)(md := (regs s md)\<lparr>num_vectors := num_vectors (regs s md) + 1\<rparr>)"
    and "devs (iter_state env dv md hwirq_base flags i s) = devs s"
    and "domains (iter_state env dv md hwirq_base flags i s) = domains s"
  using assms
  by (simp_all add: iter_state_def msi_desc_alloc_internal_def irq_create_mapping_def Let_def
      list_add_state desc_zero_def)

lemma iter_state_dlist:
  assumes "env_kmalloc env i \<noteq> 0" "env_virq env i \<noteq> 0" "md \<noteq> 0"
    and "dlist s md L" and "env_kmalloc env i \<notin> set (md # L)"
  shows "dlist (iter_state env dv md hwirq_base flags i s) md (L @ [env_kmalloc env i])"
proof -
  let ?p = "env_kmalloc env i"
  define s0 where "s0 = set_irq ?p (env_virq env i)
     (snd (irq_create_mapping (env_virq env i)
        (device.msi_domain (devs (set_msi_attrib ?p (flags AND 0xFFFF) (set_hwirq ?p (hwirq_base + of_nat i)
            (set_dev ?p dv (snd (msi_desc_alloc_internal ?p s))))) dv))
        (hwirq (descs (set_msi_attrib ?p (flags AND 0xFFFF) (set_hwirq ?p (hwirq_base + of_nat i)
            (set_dev ?p dv (snd (msi_desc_alloc_internal ?p s))))) ?p))
        (set_msi_attrib ?p (flags AND 0xFFFF) (set_hwirq ?p (hwirq_base + of_nat i)
            (set_dev ?p dv (snd (msi_desc_alloc_internal ?p s)))))))"
  have it: "iter_state env dv md hwirq_base flags i s = snd (msi_desc_list_add_locked md ?p s0)"
    by (simp add: iter_state_def s0_def Let_def)
  have "\<forall>x \<in> set (md # L). heads s0 x = heads s x"
    using assms(1,2,5)
    by (auto simp add: s0_def msi_desc_alloc_internal_def irq_create_mapping_def Let_def)
  from dlist_frame[OF this] assms(4) have "dlist s0 md L" by simp
  from dlist_add_tail[OF this assms(5,3,1)] show ?thesis by (simp add: it)
qed


lemma populated_refl: "dlist s md L \<Longrightarrow> populated env dv md hwirq_base flags L i i s s"
  by (simp add: populated_def)

lemma populated_fail:
  assumes "dlist s md L" "env_kmalloc env i \<noteq> 0" "env_kmalloc env i \<notin> live s" "set (md # L) \<subseteq> live s"
  shows "populated env dv md hwirq_base flags L i i s (iter_fail_state env dv hwirq_base flags i s)"
proof -
  note f = iter_fail_state_fields[OF assms(2,3), of dv hwirq_base flags]
  have "\<forall>x \<in> set (md # L). x \<noteq> env_kmalloc env i" using assms(3,4) by auto
  with f(2) have "\<forall>x \<in> set (md # L). heads (iter_fail_state env dv hwirq_base flags i s) x = heads s x"
    by blast
  from dlist_frame[OF this] assms(1)
  have "dlist (iter_fail_state env dv hwirq_base flags i s) md L" by simp
  moreover have "\<forall>p \<in> live s. p \<noteq> env_kmalloc env i" using assms(3) by auto
  with f(3) have "\<forall>p \<in> live s. descs (iter_fail_state env dv hwirq_base flags i s) p = descs s p"
    by blast
  ultimately show ?thesis using f(1,4,5,6) by (simp add: populated_def)
qed

lemma populated_step:
  assumes ok: "env_kmalloc env i \<noteq> 0" "env_virq env i \<noteq> 0" "md \<noteq> 0"
    and fresh: "env_kmalloc env i \<notin> live s" and sub: "set (md # L) \<subseteq> live s"
    and ik: "i < k"
    and rest: "populated env dv md hwirq_base flags (L @ [env_kmalloc env i]) (i + 1) k
                 (iter_state env dv md hwirq_base flags i s) s'"
  shows "populated env dv md hwirq_base flags L i k s s'"
proof -
  let ?s1 = "iter_state env dv md hwirq_base flags i s"
  let ?p = "env_kmalloc env i"
  note f = iter_state_fields[OF ok, of dv hwirq_base flags s]
  from rest have r: "dlist s' md ((L @ [?p]) @ map (env_kmalloc env) [i + 1..<k])"
    "num_vectors (regs s' md) = num_vectors (regs ?s1 md) + int (k - (i + 1))"
    "live s' = live ?s1 \<union> env_kmalloc env ` {i + 1..<k}"
    "\<forall>j \<in> {i + 1..<k}. env_kmalloc env j \<noteq> 0 \<and> env_virq env j \<noteq> 0 \<and>
         descs s' (env_kmalloc env j) =
           \<lparr>dev = dv, hwirq = hwirq_base + of_nat j, irq = env_virq env j,
            msi_attrib = flags AND 0xFFFF, multiple = 0, refcount = 2\<rparr>"
    "\<forall>p \<in> live ?s1. descs s' p = descs ?s1 p"
    "devs s' = devs ?s1" "domains s' = domains ?s1"
    "\<forall>x. x \<noteq> md \<longrightarrow> regs s' x = regs ?s1 x"
    by (simp_all add: populated_def)
  have upt: "[i..<k] = i # [i + 1..<k]" using ik by (simp add: upt_conv_Cons)
  have a: "dlist s' md (L @ map (env_kmalloc env) [i..<k])" using r(1) by (simp add: upt)
  have b: "num_vectors (regs s' md) = num_vectors (regs s md) + int (k - i)"
    using r(2) ik by (simp add: f(3))
  have set_ik: "{i..<k} = insert i {i + 1..<k}" using ik by auto
  have c: "live s' = live s \<union> env_kmalloc env ` {i..<k}" using r(3) by (simp add: f(1) set_ik)
  have pin: "?p \<in> live ?s1" by (simp add: f(1))
  have here: "descs s' ?p = \<lparr>dev = dv, hwirq = hwirq_base + of_nat i, irq = env_virq env i,
            msi_attrib = flags AND 0xFFFF, multiple = 0, refcount = 2\<rparr>"
  proof -
    from r(5) pin have "descs s' ?p = descs ?s1 ?p" by blast
    then show ?thesis by (simp add: f(2))
  qed
  have d: "\<forall>j \<in> {i..<k}. env_kmalloc env j \<noteq> 0 \<and> env_virq env j \<noteq> 0 \<and>
         descs s' (env_kmalloc env j) =
           \<lparr>dev = dv, hwirq = hwirq_base + of_nat j, irq = env_virq env j,
            msi_attrib = flags AND 0xFFFF, multiple = 0, refcount = 2\<rparr>"
  proof
    fix j assume "j \<in> {i..<k}"
    then have "j = i \<or> j \<in> {i + 1..<k}" by auto
    then show "env_kmalloc env j \<noteq> 0 \<and> env_virq env j \<noteq> 0 \<and>
         descs s' (env_kmalloc env j) =
           \<lparr>dev = dv, hwirq = hwirq_base + of_nat j, irq = env_virq env j,
            msi_attrib = flags AND 0xFFFF, multiple = 0, refcount = 2\<rparr>"
      using r(4) here ok by blast
  qed
  have e: "\<forall>p \<in> live s. descs s' p = descs s p"
  proof
    fix q assume q: "q \<in> live s"
    then have "q \<in> live ?s1" "q \<noteq> ?p" using fresh by (auto simp add: f(1))
    with r(5) have "descs s' q = descs ?s1 q" by blast
    with \<open>q \<noteq> ?p\<close> show "descs s' q = descs s q" by (simp add: f(2))
  qed
  have g: "\<forall>x. x \<noteq> md \<longrightarrow> regs s' x = regs s x" using r(8) by (simp add: f(3))
  from a b c d e g r(6,7) show ?thesis by (simp add: populated_def f(4,5))
qed

lemma populate_ok:
  assumes "i \<le> unat nvec" and "dlist s md L" and "md \<noteq> 0" and "set (md # L) \<subseteq> live s"
    and "\<forall>j. i \<le> j \<and> j < unat nvec \<and> env_kmalloc env j \<noteq> 0 \<longrightarrow>
           env_kmalloc env j \<notin> live s \<and> (\<forall>j'. i \<le> j' \<and> j' < j \<longrightarrow> env_kmalloc env j' \<noteq> env_kmalloc env j)"
  shows "(\<forall>s'. populate env dv md hwirq_base flags nvec i s = Inr s' \<longrightarrow>
            populated env dv md hwirq_base flags L i (unat nvec) s s') \<and>
         (\<forall>e k s'. populate env dv md hwirq_base flags nvec i s = Inl (e, k, s') \<longrightarrow>
            i \<le> k \<and> k < unat nvec \<and> populated env dv md hwirq_base flags L i k s s' \<and>
            (e = Out_of_memory \<and> env_kmalloc env k = 0 \<or>
             e = Mapping_failed \<and> env_kmalloc env k \<noteq> 0 \<and> env_virq env k = 0))"
  using assms
proof (induction "unat nvec - i" arbitrary: i s L)
  case 0
  then have "i = unat nvec" by simp
  then have "populate env dv md hwirq_base flags nvec i s = Inr s"
    by (subst populate.simps) simp
  with 0 \<open>i = unat nvec\<close> show ?case by (simp add: populated_refl)
next
  case (Suc n)
  then have lt: "i < unat nvec" by simp
  let ?p = "env_kmalloc env i"
  consider (oom) "?p = 0" | (nomap) "?p \<noteq> 0" "env_virq env i = 0" | (ok) "?p \<noteq> 0" "env_virq env i \<noteq> 0"
    by blast
  then show ?case
  proof cases
    case oom
    from populate_step_oom[OF lt oom] lt oom Suc.prems(2) show ?thesis
      by (simp add: populated_refl)
  next
    case nomap
    from Suc.prems(5) lt nomap(1) have fresh: "?p \<notin> live s" by auto
    from populate_step_nomap[OF lt nomap] lt nomap
      populated_fail[OF Suc.prems(2) nomap(1) fresh Suc.prems(4)]
    show ?thesis by simp
  next
    case ok
    from Suc.prems(5) lt ok(1) have fresh: "?p \<notin> live s" by auto
    let ?s1 = "iter_state env dv md hwirq_base flags i s"
    note f = iter_state_fields[OF ok Suc.prems(3), of dv hwirq_base flags s]
    have pnin: "?p \<notin> set (md # L)" using fresh Suc.prems(4) by auto
    have step: "populate env dv md hwirq_base flags nvec i s =
                populate env dv md hwirq_base flags nvec (i + 1) ?s1"
      by (rule populate_step_ok[OF lt ok Suc.prems(3)])
    have IH: "(\<forall>s'. populate env dv md hwirq_base flags nvec (i + 1) ?s1 = Inr s' \<longrightarrow>
            populated env dv md hwirq_base flags (L @ [?p]) (i + 1) (unat nvec) ?s1 s') \<and>
         (\<forall>e k s'. populate env dv md hwirq_base flags nvec (i + 1) ?s1 = Inl (e, k, s') \<longrightarrow>
            i + 1 \<le> k \<and> k < unat nvec \<and> populated env dv md hwirq_base flags (L @ [?p]) (i + 1) k ?s1 s' \<and>
            (e = Out_of_memory \<and> env_kmalloc env k = 0 \<or>
             e = Mapping_failed \<and> env_kmalloc env k \<noteq> 0 \<and> env_virq env k = 0))"
    proof (rule Suc.hyps(1))
      show "n = unat nvec - (i + 1)" using Suc.hyps(2) by simp
      show "i + 1 \<le> unat nvec" using lt by simp
      show "dlist ?s1 md (L @ [?p])" by (rule iter_state_dlist[OF ok Suc.prems(3,2) pnin])
      show "md \<noteq> 0" by (rule Suc.prems(3))
      show "set (md # L @ [?p]) \<subseteq> live ?s1" using Suc.prems(4) by (auto simp add: f(1))
      show "\<forall>j. i + 1 \<le> j \<and> j < unat nvec \<and> env_kmalloc env j \<noteq> 0 \<longrightarrow>
           env_kmalloc env j \<notin> live ?s1 \<and>
           (\<forall>j'. i + 1 \<le> j' \<and> j' < j \<longrightarrow> env_kmalloc env j' \<noteq> env_kmalloc env j)"
      proof (intro allI impI)
        fix j assume j: "i + 1 \<le> j \<and> j < unat nvec \<and> env_kmalloc env j \<noteq> 0"
        with Suc.prems(5)[rule_format, of j]
        have "env_kmalloc env j \<notin> live s" and d: "\<forall>j'. i \<le> j' \<and> j' < j \<longrightarrow> env_kmalloc env j' \<noteq> env_kmalloc env j"
          by auto
        moreover from d j have "?p \<noteq> env_kmalloc env j" by auto
        ultimately show "env_kmalloc env j \<notin> live ?s1 \<and>
           (\<forall>j'. i + 1 \<le> j' \<and> j' < j \<longrightarrow> env_kmalloc env j' \<noteq> env_kmalloc env j)"
          by (auto simp add: f(1))
      qed
    qed
    show ?thesis
    proof (intro conjI allI impI)
      fix s' assume "populate env dv md hwirq_base flags nvec i s = Inr s'"
      with step have eq: "populate env dv md hwirq_base flags nvec (i + 1) ?s1 = Inr s'" by simp
      from IH[THEN conjunct1, rule_format, OF eq]
      have "populated env dv md hwirq_base flags (L @ [?p]) (i + 1) (unat nvec) ?s1 s'" .
      from populated_step[OF ok Suc.prems(3) fresh Suc.prems(4) lt this]
      show "populated env dv md hwirq_base flags L i (unat nvec) s s'" .
    next
      fix e k s' assume "populate env dv md hwirq_base flags nvec i s = Inl (e, k, s')"
      with step have eq: "populate env dv md hwirq_base flags nvec (i + 1) ?s1 = Inl (e, k, s')"
        by simp
      from IH[THEN conjunct2, rule_format, OF eq]
      have r: "i + 1 \<le> k" "k < unat nvec"
        "populated env dv md hwirq_base flags (L @ [?p]) (i + 1) k ?s1 s'"
        "e = Out_of_memory \<and> env_kmalloc env k = 0 \<or>
             e = Mapping_failed \<and> env_kmalloc env k \<noteq> 0 \<and> env_virq env k = 0" by blast+
      from r(1) have ik: "i < k" by simp
      show "i \<le> k" using ik by simp
      show "k < unat nvec" by (rule r(2))
      show "populated env dv md hwirq_base flags L i k s s'"
        by (rule populated_step[OF ok Suc.prems(3) fresh Suc.prems(4) ik r(3)])
      show "e = Out_of_memory \<and> env_kmalloc env k = 0 \<or>
             e = Mapping_failed \<and> env_kmalloc env k \<noteq> 0 \<and> env_virq env k = 0" by (rule r(4))
    qed
  qed
qed

section \<open>Size selection\<close>

lemma nvec_loop_value:
  assumes "hi \<le> 32"
  shows "nvec_loop 1 hi = Some (if hi < 1 then 1 else if hi < 2 then 2 else if hi < 4 then 4
           else if hi < 8 then 8 else if hi < 16 then 16 else if hi < 32 then 32 else 64)"
proof -
  have step: "nvec_loop a hi = (if hi < a then Some a else nvec_loop (2 * a) hi)" for a
    by (subst nvec_loop.simps) (simp add: not_le[symmetric] push_bit_eq_mult mult.commute)
  have last: "nvec_loop 64 hi = Some 64"
    using assms by (subst nvec_loop.simps) (simp add: word_le_nat_alt)
  show ?thesis
    by (simp add: step[of 1] step[of 2] step[of 4] step[of 8] step[of 16] step[of 32] last)
qed

lemma nvec_loop_select: "hi \<le> 32 \<Longrightarrow> map_option (drop_bit 1) (nvec_loop 1 hi) = Some (select_nvec hi)"
  by (simp add: nvec_loop_value select_nvec_def drop_bit_eq_div)

lemma select_nvec_cases:
  "1 \<le> hi \<Longrightarrow> hi \<le> 32 \<Longrightarrow> select_nvec hi \<in> {1, 2, 4, 8, 16, 32}"
  by (auto simp add: select_nvec_def word_less_nat_alt word_le_nat_alt)

lemma select_nvec_bounds:
  assumes "1 \<le> hi" "hi \<le> 32"
  shows "select_nvec hi \<le> hi" and "unat hi < 2 * unat (select_nvec hi)"
    and "1 \<le> unat (select_nvec hi)" and "unat (select_nvec hi) \<le> 32"
  using assms
  by (auto simp add: select_nvec_def word_less_nat_alt word_le_nat_alt)

lemma select_nvec_pow2:
  assumes "1 \<le> hi" "hi \<le> 32"
  shows "\<exists>k \<le> 5. select_nvec hi = 2 ^ k \<and> unat (select_nvec hi) = 2 ^ k"
proof -
  from select_nvec_cases[OF assms] consider "select_nvec hi = 1" | "select_nvec hi = 2" | "select_nvec hi = 4"
    | "select_nvec hi = 8" | "select_nvec hi = 16" | "select_nvec hi = 32" by auto
  then show ?thesis
  proof cases
    case 1 then show ?thesis by (intro exI[of _ 0]) simp
  next
    case 2 then show ?thesis by (intro exI[of _ 1]) simp
  next
    case 3 then show ?thesis by (intro exI[of _ 2]) simp
  next
    case 4 then show ?thesis by (intro exI[of _ 3]) simp
  next
    case 5 then show ?thesis by (intro exI[of _ 4]) simp
  next
    case 6 then show ?thesis by (intro exI[of _ 5]) simp
  qed
qed


lemma alloc_invalid:
  "dv = 0 \<or> msi_data (devs s dv) = 0 \<or> device.msi_domain (devs s dv) = 0 \<or> lo = 0 \<or> lo > hi \<or> hi > 32
   \<Longrightarrow> msi_alloc_vectors env dv lo hi fl s = Some (Inl Invalid_argument, s)"
  by (auto simp add: msi_alloc_vectors_def MSI_MAX_VECTORS_def)

lemma alloc_unfold:
  assumes "dv \<noteq> 0" "msi_data (devs s dv) \<noteq> 0" "device.msi_domain (devs s dv) \<noteq> 0"
    and "lo \<noteq> 0" "lo \<le> hi" "hi \<le> 32"
  shows "msi_alloc_vectors env dv lo hi fl s =
     (if select_nvec hi < lo then Some (Inl No_power_of_two, s)
      else case env_hwirq_base env (unat (select_nvec hi)) of
        None \<Rightarrow> Some (Inl Range_unavailable, s)
      | Some b \<Rightarrow>
          (case populate env dv (msi_data (devs s dv)) b fl (select_nvec hi) 0
                  (irq_domain_reserve (device.msi_domain (devs s dv)) b (unat (select_nvec hi)) s) of
             Inr s1 \<Rightarrow> Some (Inr (select_nvec hi), s1)
           | Inl (e, i, s1) \<Rightarrow>
               (case cleanup_loop (msi_data (devs s dv)) b i s1 of
                  None \<Rightarrow> None
                | Some s2 \<Rightarrow>
                    Some (Inl e, irq_domain_free_hwirq_range (device.msi_domain (devs s2 dv)) b
                                   (unat (select_nvec hi)) s2))))"
proof -
  from nvec_loop_select[OF assms(6)] obtain q where q: "nvec_loop 1 hi = Some q" "drop_bit 1 q = select_nvec hi"
    by auto
  have v: "\<not> (dv = 0 \<or> msi_data (devs s dv) = 0 \<or> device.msi_domain (devs s dv) = 0 \<or> lo = 0 \<or>
         lo > hi \<or> hi > MSI_MAX_VECTORS)"
    using assms by (auto simp add: MSI_MAX_VECTORS_def)
  show ?thesis
    unfolding msi_alloc_vectors_def
    by (simp only: v if_False q option.case Let_def)
       (simp add: irq_domain_alloc_hwirq_range_def split: option.splits)
qed



section \<open>The outcome of an allocation\<close>

lemma dpath_determines:
  "dpath h p ds q \<Longrightarrow> dpath h' p ds q \<Longrightarrow>
     (\<forall>x \<in> set (p # ds). list_next (h' x) = list_next (h x)) \<and>
     (\<forall>x \<in> set (ds @ [q]). list_prev (h' x) = list_prev (h x))"
  by (induction ds arbitrary: p) auto

lemma dlist_heads_eq:
  assumes "dlist s md ds" "dlist s' md ds"
  shows "\<forall>p \<in> set (md # ds). heads s' p = heads s p"
proof
  fix p assume p: "p \<in> set (md # ds)"
  from assms have "dpath (heads s) md ds md" "dpath (heads s') md ds md" by (simp_all add: dlist_def)
  from dpath_determines[OF this] p
  have "list_next (heads s' p) = list_next (heads s p)" "list_prev (heads s' p) = list_prev (heads s p)"
    by auto
  then show "heads s' p = heads s p" by simp
qed

lemma registry_restored_refl: "registry_inv s dv ds \<Longrightarrow> registry_restored s s dv ds"
  by (simp add: registry_restored_def registry_inv_def)

lemma hwirq_range_mono: "k \<le> n \<Longrightarrow> hwirq_range b k \<subseteq> hwirq_range b n"
  by (auto simp add: hwirq_range_def)

lemma hwirq_range_mem: "j < n \<Longrightarrow> b + of_nat j \<in> hwirq_range b n"
  by (auto simp add: hwirq_range_def)

lemma env_ok_fresh:
  assumes "env_ok env s dv" "n \<le> 32" "live s0 = live s"
  shows "\<forall>j. 0 \<le> j \<and> j < n \<and> env_kmalloc env j \<noteq> 0 \<longrightarrow>
           env_kmalloc env j \<notin> live s0 \<and> (\<forall>j'. 0 \<le> j' \<and> j' < j \<longrightarrow> env_kmalloc env j' \<noteq> env_kmalloc env j)"
proof (intro allI impI)
  fix j assume j: "0 \<le> j \<and> j < n \<and> env_kmalloc env j \<noteq> 0"
  with assms(2) have jin: "j \<in> {0..<32}" by simp
  from assms(1) have all: "\<forall>j \<in> {0..<32}. env_kmalloc env j = 0 \<or>
          env_kmalloc env j \<notin> live s \<and> (\<forall>j' \<in> {0..<j}. env_kmalloc env j' \<noteq> env_kmalloc env j)"
    by (simp add: env_ok_def)
  from bspec[OF all jin] j
  have "env_kmalloc env j \<notin> live s \<and> (\<forall>j' \<in> {0..<j}. env_kmalloc env j' \<noteq> env_kmalloc env j)"
    by simp
  then show "env_kmalloc env j \<notin> live s0 \<and> (\<forall>j'. 0 \<le> j' \<and> j' < j \<longrightarrow> env_kmalloc env j' \<noteq> env_kmalloc env j)"
    using assms(3) by auto
qed

lemma env_ok_range:
  assumes "env_ok env s dv" "n \<le> 32" "env_hwirq_base env n = Some b"
  shows "hwirq_range b n \<inter> reserved (domains s (device.msi_domain (devs s dv))) = {}"
    and "unat b + n \<le> 2 ^ 32"
proof -
  from assms(2) have nin: "n \<in> {0..32}" by simp
  from assms(1) have all: "\<forall>n \<in> {0..32}. case env_hwirq_base env n of None \<Rightarrow> True
        | Some b \<Rightarrow> hwirq_range b n \<inter> reserved (domains s (device.msi_domain (devs s dv))) = {} \<and>
                    unat b + n \<le> 2 ^ 32"
    by (simp add: env_ok_def)
  from bspec[OF all nin]
  have "case env_hwirq_base env n of None \<Rightarrow> True
        | Some b \<Rightarrow> hwirq_range b n \<inter> reserved (domains s (device.msi_domain (devs s dv))) = {} \<and>
                    unat b + n \<le> 2 ^ 32" .
  with assms(3) show "hwirq_range b n \<inter> reserved (domains s (device.msi_domain (devs s dv))) = {}"
    and "unat b + n \<le> 2 ^ 32" by simp_all
qed

text \<open>The rollback after a failed round \<open>k\<close> undoes the rounds before it.\<close>

lemma rollback_restores:
  assumes inv: "registry_inv s dv ds"
    and disj: "hwirq_range b n \<inter> reserved (domains s (device.msi_domain (devs s dv))) = {}"
    and kn: "k \<le> n" "n \<le> 32"
    and fresh: "\<forall>j < k. env_kmalloc env j \<notin> live s"
    and pop: "populated env dv (msi_data (devs s dv)) b fl ds 0 k
                (irq_domain_reserve (device.msi_domain (devs s dv)) b n s) s1"
  shows "\<exists>s2. cleanup_loop (msi_data (devs s dv)) b k s1 = Some s2 \<and>
           registry_restored s
             (irq_domain_free_hwirq_range (device.msi_domain (devs s2 dv)) b n s2) dv ds"
proof -
  let ?md = "msi_data (devs s dv)"
  let ?dom = "device.msi_domain (devs s dv)"
  let ?s0 = "irq_domain_reserve ?dom b n s"
  let ?news = "map (env_kmalloc env) [0..<k]"
  from pop have p: "dlist s1 ?md (ds @ ?news)"
    "num_vectors (regs s1 ?md) = num_vectors (regs ?s0 ?md) + int (k - 0)"
    "live s1 = live ?s0 \<union> env_kmalloc env ` {0..<k}"
    "\<forall>j \<in> {0..<k}. env_kmalloc env j \<noteq> 0 \<and> env_virq env j \<noteq> 0 \<and>
         descs s1 (env_kmalloc env j) =
           \<lparr>dev = dv, hwirq = b + of_nat j, irq = env_virq env j,
            msi_attrib = fl AND 0xFFFF, multiple = 0, refcount = 2\<rparr>"
    "\<forall>p \<in> live ?s0. descs s1 p = descs ?s0 p"
    "devs s1 = devs ?s0" "domains s1 = domains ?s0"
    by (simp_all add: populated_def)
  from inv have i: "dlist s ?md ds" "set (?md # ds) \<subseteq> live s"
    "\<forall>p \<in> set ds. hwirq (descs s p) \<in> reserved (domains s ?dom)"
    by (simp_all add: registry_inv_def)
  have old: "descs s1 x = descs s x" if "x \<in> live s" for x using p(5) that by simp
  have c1: "\<forall>j < length ?news. hwirq (descs s1 (?news ! j)) = b + of_nat j"
    using p(4) by simp
  have c2: "\<forall>x \<in> set ds. hwirq (descs s1 x) \<notin> hwirq_range b (length ?news)"
  proof
    fix x assume x: "x \<in> set ds"
    with i(2) have "x \<in> live s" by auto
    with old have "hwirq (descs s1 x) = hwirq (descs s x)" by simp
    moreover from i(3) x have "hwirq (descs s x) \<in> reserved (domains s ?dom)" by blast
    moreover have "hwirq_range b (length ?news) \<subseteq> hwirq_range b n" using kn(1) by (simp add: hwirq_range_mono)
    ultimately show "hwirq (descs s1 x) \<notin> hwirq_range b (length ?news)" using disj by auto
  qed
  have c3: "length ?news \<le> 2 ^ 32" using kn by simp
  from cleanup_loop_ok[OF p(1) c1 c2 c3] obtain s2 where
    r: "cleanup_loop ?md b (length ?news) s1 = Some s2" "dlist s2 ?md ds"
      "num_vectors (regs s2 ?md) = num_vectors (regs s1 ?md) - int (length ?news)"
      "live s2 = live s1 - set ?news" "descs s2 = descs s1" "devs s2 = devs s1" "domains s2 = domains s1"
    by blast
  let ?s' = "irq_domain_free_hwirq_range (device.msi_domain (devs s2 dv)) b n s2"
  have dv2: "devs s2 = devs s" using r(6) p(6) by simp
  have a: "dlist ?s' ?md ds" using r(2) by simp
  have live': "live ?s' = live s"
  proof -
    have "set ?news \<inter> live s = {}" using fresh by auto
    moreover have "live s2 = (live s \<union> set ?news) - set ?news" using r(4) p(3) by simp
    ultimately show ?thesis by auto
  qed
  have nv: "num_vectors (regs ?s' ?md) = num_vectors (regs s ?md)" using r(3) p(2) by simp
  have ds': "\<forall>x \<in> live s. descs ?s' x = descs s x" using r(5) old by simp
  have res: "reserved (domains ?s' ?dom) = reserved (domains s ?dom)"
    using disj by (auto simp add: dv2 r(7) p(7))
  from dlist_heads_eq[OF i(1) a] have hd: "\<forall>p \<in> set (?md # ds). heads ?s' p = heads s p" .
  have "registry_restored s ?s' dv ds"
    unfolding registry_restored_def using a live' nv ds' res hd dv2 by simp
  with r(1) show ?thesis by simp
qed


lemma alloc_outcome:
  assumes inv: "registry_inv s dv ds" and env: "env_ok env s dv"
  shows "\<exists>r s'. msi_alloc_vectors env dv lo hi fl s = Some (r, s') \<and>
     (case r of
        Inl e \<Rightarrow> registry_restored s s' dv ds \<and> alloc_failure_cause env lo hi e
      | Inr n \<Rightarrow> lo \<noteq> 0 \<and> lo \<le> hi \<and> hi \<le> 32 \<and> n = select_nvec hi \<and> lo \<le> n \<and>
          (\<exists>b. env_hwirq_base env (unat n) = Some b \<and> unat b + unat n \<le> 2 ^ 32 \<and>
               populated env dv (msi_data (devs s dv)) b fl ds 0 (unat n)
                 (irq_domain_reserve (device.msi_domain (devs s dv)) b (unat n) s) s'))"
proof (cases "lo = 0 \<or> lo > hi \<or> hi > 32")
  case True
  then have "msi_alloc_vectors env dv lo hi fl s = Some (Inl Invalid_argument, s)"
    by (intro alloc_invalid) blast
  with registry_restored_refl[OF inv] True show ?thesis by (simp add: alloc_failure_cause_def)
next
  case False
  then have args: "lo \<noteq> 0" "lo \<le> hi" "hi \<le> 32" by auto
  let ?md = "msi_data (devs s dv)"
  let ?dom = "device.msi_domain (devs s dv)"
  let ?nvec = "select_nvec hi"
  let ?n = "unat ?nvec"
  from inv have nz: "dv \<noteq> 0" "?md \<noteq> 0" "?dom \<noteq> 0" and l: "dlist s ?md ds"
    and sub: "set (?md # ds) \<subseteq> live s" by (simp_all add: registry_inv_def)
  note unf = alloc_unfold[OF nz args, of env fl]
  have hi1: "1 \<le> hi" using args(1,2) by (simp add: word_le_nat_alt unat_eq_0 [symmetric] Suc_le_eq)
  have n32: "?n \<le> 32" using select_nvec_bounds(4)[OF hi1 args(3)] .
  show ?thesis
  proof (cases "?nvec < lo")
    case True
    with unf registry_restored_refl[OF inv] args show ?thesis by (simp add: alloc_failure_cause_def)
  next
    case nofit: False
    show ?thesis
    proof (cases "env_hwirq_base env ?n")
      case None
      with unf nofit registry_restored_refl[OF inv] show ?thesis by (simp add: alloc_failure_cause_def)
    next
      case (Some b)
      let ?s0 = "irq_domain_reserve ?dom b ?n s"
      note rng = env_ok_range[OF env n32 Some]
      have fresh: "\<forall>j. 0 \<le> j \<and> j < ?n \<and> env_kmalloc env j \<noteq> 0 \<longrightarrow>
           env_kmalloc env j \<notin> live ?s0 \<and> (\<forall>j'. 0 \<le> j' \<and> j' < j \<longrightarrow> env_kmalloc env j' \<noteq> env_kmalloc env j)"
        by (rule env_ok_fresh[OF env n32]) simp
      have pre: "0 \<le> ?n" "dlist ?s0 ?md ds" "set (?md # ds) \<subseteq> live ?s0" using l sub by simp_all
      note pop = populate_ok[OF pre(1,2) nz(2) pre(3) fresh, of dv b fl]
      show ?thesis
      proof (cases "populate env dv ?md b fl ?nvec 0 ?s0")
        case (Inr s1)
        with pop have "populated env dv ?md b fl ds 0 ?n ?s0 s1" by blast
        moreover have "msi_alloc_vectors env dv lo hi fl s = Some (Inr ?nvec, s1)"
          using unf nofit Some Inr by simp
        moreover have "lo \<le> ?nvec" using nofit by simp
        ultimately show ?thesis using args Some rng(2) by simp
      next
        case (Inl t)
        obtain e k s1 where t: "t = (e, k, s1)" by (cases t)
        with Inl pop have r: "k < ?n" "populated env dv ?md b fl ds 0 k ?s0 s1"
          "e = Out_of_memory \<and> env_kmalloc env k = 0 \<or>
           e = Mapping_failed \<and> env_kmalloc env k \<noteq> 0 \<and> env_virq env k = 0" by blast+
        from r(1,3) have cause: "alloc_failure_cause env lo hi e"
          by (auto simp add: alloc_failure_cause_def)
        have fk: "\<forall>j < k. env_kmalloc env j \<notin> live s"
        proof (intro allI impI)
          fix j assume "j < k"
          moreover from r(2) have "\<forall>j \<in> {0..<k}. env_kmalloc env j \<noteq> 0" by (simp add: populated_def)
          ultimately have "j < ?n" "env_kmalloc env j \<noteq> 0" using r(1) by auto
          with fresh show "env_kmalloc env j \<notin> live s" by simp
        qed
        from r(1) have kn: "k \<le> ?n" by simp
        from rollback_restores[OF inv rng(1) kn n32 fk r(2)] obtain s2 where
          s2: "cleanup_loop ?md b k s1 = Some s2"
            "registry_restored s (irq_domain_free_hwirq_range (device.msi_domain (devs s2 dv)) b ?n s2) dv ds"
          by blast
        have "msi_alloc_vectors env dv lo hi fl s =
                Some (Inl e, irq_domain_free_hwirq_range (device.msi_domain (devs s2 dv)) b ?n s2)"
          using unf nofit Some Inl t s2(1) by simp
        with s2(2) cause show ?thesis by simp
      qed
    qed
  qed
qed

section \<open>Failed and successful allocations\<close>

lemma registry_restored_inv:
  assumes "registry_inv s dv ds" "registry_restored s s' dv ds"
  shows "registry_inv s' dv ds"
proof -
  from assms(2) have r: "devs s' = devs s" "live s' = live s" "dlist s' (msi_data (devs s dv)) ds"
    "num_vectors (regs s' (msi_data (devs s dv))) = num_vectors (regs s (msi_data (devs s dv)))"
    "\<forall>p \<in> live s. descs s' p = descs s p"
    "reserved (domains s' (device.msi_domain (devs s dv))) = reserved (domains s (device.msi_domain (devs s dv)))"
    by (simp_all add: registry_restored_def)
  from assms(1) have sub: "set ds \<subseteq> live s" by (simp add: registry_inv_def)
  have "\<forall>p \<in> set ds. descs s' p = descs s p" using r(5) sub by blast
  with assms(1) r show ?thesis by (simp add: registry_inv_def)
qed

text \<open>
  The rollback of \<open>msi_alloc_vectors\<close> on a registry in the state the MSI core keeps
  it in (\<open>registry_inv\<close>), with collaborators that keep their contracts (\<open>env_ok\<close>): the
  call returns, and when it fails the registry is as before the call: \<open>num_vectors\<close>, the
  list with its links and the contents of its descriptors, the occupancy of the MSI
  domain and the live blocks. The rollback finds the descriptors of the failed call by
  their \<open>hwirq\<close>; the invariant makes every listed descriptor's \<open>hwirq\<close> a reserved id,
  so none of the old ones lies in the range just handed out.
\<close>

lemma alloc_failure_facts:
  assumes "registry_inv s dv ds" and "env_ok env s dv"
  shows "\<exists>r s'. msi_alloc_vectors env dv lo hi fl s = Some (r, s') \<and>
           (\<forall>e. r = Inl e \<longrightarrow>
              msi_return r = - 1 \<and>
              num_vectors (regs s' (msi_data (devs s dv))) = num_vectors (regs s (msi_data (devs s dv))) \<and>
              num_vectors (regs s' (msi_data (devs s dv))) = int (length ds) \<and>
              dlist s' (msi_data (devs s dv)) ds \<and>
              (\<forall>p \<in> set (msi_data (devs s dv) # ds). heads s' p = heads s p) \<and>
              (\<forall>p \<in> set ds. descs s' p = descs s p) \<and>
              reserved (domains s' (device.msi_domain (devs s dv))) =
                reserved (domains s (device.msi_domain (devs s dv))) \<and>
              live s' = live s \<and> devs s' = devs s \<and> registry_inv s' dv ds)"
proof -
  from alloc_outcome[OF assms, of lo hi fl] obtain r s' where
    o: "msi_alloc_vectors env dv lo hi fl s = Some (r, s')"
       "case r of Inl e \<Rightarrow> registry_restored s s' dv ds \<and> alloc_failure_cause env lo hi e
        | Inr n \<Rightarrow> lo \<noteq> 0 \<and> lo \<le> hi \<and> hi \<le> 32 \<and> n = select_nvec hi \<and> lo \<le> n \<and>
          (\<exists>b. env_hwirq_base env (unat n) = Some b \<and> unat b + unat n \<le> 2 ^ 32 \<and>
               populated env dv (msi_data (devs s dv)) b fl ds 0 (unat n)
                 (irq_domain_reserve (device.msi_domain (devs s dv)) b (unat n) s) s')"
    by blast
  have "msi_return r = - 1 \<and>
        num_vectors (regs s' (msi_data (devs s dv))) = num_vectors (regs s (msi_data (devs s dv))) \<and>
        num_vectors (regs s' (msi_data (devs s dv))) = int (length ds) \<and>
        dlist s' (msi_data (devs s dv)) ds \<and>
        (\<forall>p \<in> set (msi_data (devs s dv) # ds). heads s' p = heads s p) \<and>
        (\<forall>p \<in> set ds. descs s' p = descs s p) \<and>
        reserved (domains s' (device.msi_domain (devs s dv))) =
          reserved (domains s (device.msi_domain (devs s dv))) \<and>
        live s' = live s \<and> devs s' = devs s \<and> registry_inv s' dv ds"
    if e: "r = Inl e" for e
  proof -
    from o(2) e have res: "registry_restored s s' dv ds" by simp
    from assms(1) have sub: "set ds \<subseteq> live s"
      and nv: "num_vectors (regs s (msi_data (devs s dv))) = int (length ds)"
      by (simp_all add: registry_inv_def)
    from res have "\<forall>p \<in> live s. descs s' p = descs s p" by (simp add: registry_restored_def)
    with sub have "\<forall>p \<in> set ds. descs s' p = descs s p" by blast
    moreover note registry_restored_inv[OF assms(1) res]
    moreover have "msi_return r = - 1" using e by (simp add: msi_return_def)
    ultimately show ?thesis using res nv by (simp add: registry_restored_def)
  qed
  with o(1) show ?thesis by blast
qed

lemma unat_offset:
  "unat (b :: u32) + n \<le> 2 ^ 32 \<Longrightarrow> j < n \<Longrightarrow> unat (b + of_nat j) = unat b + j"
proof -
  assume a: "unat b + n \<le> 2 ^ 32" "j < n"
  then have j: "j < 2 ^ 32" by simp
  then have "unat (of_nat j :: u32) = j" by (simp add: unat_of_nat)
  moreover have "unat b + unat (of_nat j :: u32) < 2 ^ LENGTH(32)" using a \<open>unat (of_nat j :: u32) = j\<close> by simp
  ultimately show ?thesis by (simp add: unat_add_lem[THEN iffD1])
qed

lemma alloc_success_facts:
  assumes "registry_inv s dv ds" and "env_ok env s dv"
    and "msi_alloc_vectors env dv lo hi fl s = Some (Inr n, s')"
  shows "(\<exists>k. n = 2 ^ k \<and> unat n = 2 ^ k) \<and> lo \<le> n \<and> n \<le> hi \<and> msi_return (Inr n) = int (unat n) \<and>
         num_vectors (regs s' (msi_data (devs s dv))) =
           num_vectors (regs s (msi_data (devs s dv))) + int (unat n) \<and>
         devs s' = devs s \<and>
         (\<exists>b. env_hwirq_base env (unat n) = Some b \<and>
            dlist s' (msi_data (devs s dv)) (ds @ map (env_kmalloc env) [0..<unat n]) \<and>
            (\<forall>j < unat n. hwirq (descs s' (env_kmalloc env j)) = b + of_nat j \<and>
                          unat (hwirq (descs s' (env_kmalloc env j))) = unat b + j)) \<and>
         (\<forall>p \<in> set (ds @ map (env_kmalloc env) [0..<unat n]). irq (descs s' p) \<noteq> 0) \<and>
         registry_inv s' dv (ds @ map (env_kmalloc env) [0..<unat n])"
proof -
  let ?md = "msi_data (devs s dv)"
  let ?dom = "device.msi_domain (devs s dv)"
  from alloc_outcome[OF assms(1,2), of lo hi fl] assms(3) obtain b where
    o: "lo \<noteq> 0" "lo \<le> hi" "hi \<le> 32" "n = select_nvec hi" "lo \<le> n"
       "env_hwirq_base env (unat n) = Some b" "unat b + unat n \<le> 2 ^ 32"
       "populated env dv ?md b fl ds 0 (unat n) (irq_domain_reserve ?dom b (unat n) s) s'"
    by auto
  let ?news = "map (env_kmalloc env) [0..<unat n]"
  let ?s0 = "irq_domain_reserve ?dom b (unat n) s"
  from o(8) have p: "dlist s' ?md (ds @ ?news)"
    "num_vectors (regs s' ?md) = num_vectors (regs ?s0 ?md) + int (unat n - 0)"
    "live s' = live ?s0 \<union> env_kmalloc env ` {0..<unat n}"
    "\<forall>j \<in> {0..<unat n}. env_kmalloc env j \<noteq> 0 \<and> env_virq env j \<noteq> 0 \<and>
         descs s' (env_kmalloc env j) =
           \<lparr>dev = dv, hwirq = b + of_nat j, irq = env_virq env j,
            msi_attrib = fl AND 0xFFFF, multiple = 0, refcount = 2\<rparr>"
    "\<forall>p \<in> live ?s0. descs s' p = descs ?s0 p"
    "devs s' = devs ?s0" "domains s' = domains ?s0"
    by (simp_all add: populated_def)
  from assms(1) have i: "dv \<noteq> 0" "?md \<noteq> 0" "?dom \<noteq> 0" "set (?md # ds) \<subseteq> live s"
    "num_vectors (regs s ?md) = int (length ds)"
    "\<forall>p \<in> set ds. hwirq (descs s p) \<in> reserved (domains s ?dom) \<and> irq (descs s p) \<noteq> 0"
    by (simp_all add: registry_inv_def)
  have hi1: "1 \<le> hi" using o(1,2) by (simp add: word_le_nat_alt unat_eq_0 [symmetric] Suc_le_eq)
  from select_nvec_pow2[OF hi1 o(3)] o(4) have pow: "\<exists>k. n = 2 ^ k \<and> unat n = 2 ^ k" by auto
  from select_nvec_bounds(1)[OF hi1 o(3)] o(4) have nhi: "n \<le> hi" by simp
  from select_nvec_cases[OF hi1 o(3)] o(4) have "n \<in> {1, 2, 4, 8, 16, 32}" by simp
  then have ret: "msi_return (Inr n) = int (unat n)"
    by (auto simp add: msi_return_def)
  have nv: "num_vectors (regs s' ?md) = num_vectors (regs s ?md) + int (unat n)" using p(2) by simp
  have old: "descs s' x = descs s x" if "x \<in> set ds" for x using p(5) i(4) that by auto
  have new: "hwirq (descs s' (env_kmalloc env j)) = b + of_nat j \<and>
             unat (hwirq (descs s' (env_kmalloc env j))) = unat b + j"
    if "j < unat n" for j
    using p(4) that unat_offset[OF o(7) that] by simp
  have irqs: "\<forall>p \<in> set (ds @ ?news). irq (descs s' p) \<noteq> 0"
    using old i(6) p(4) by auto
  have res: "\<forall>p \<in> set (ds @ ?news). hwirq (descs s' p) \<in> reserved (domains s' ?dom)"
  proof
    fix x assume "x \<in> set (ds @ ?news)"
    then consider "x \<in> set ds" | j where "j < unat n" "x = env_kmalloc env j" by auto
    then show "hwirq (descs s' x) \<in> reserved (domains s' ?dom)"
    proof cases
      case 1
      with old i(6) show ?thesis by (simp add: p(7))
    next
      case 2
      with p(4) hwirq_range_mem[of j "unat n" b] show ?thesis by (simp add: p(7))
    qed
  qed
  have inv': "registry_inv s' dv (ds @ ?news)"
    unfolding registry_inv_def using i(1,2,3,4) p(1,3) nv i(5) irqs res
    by (auto simp add: p(6))
  have new_all: "\<forall>j < unat n. hwirq (descs s' (env_kmalloc env j)) = b + of_nat j \<and>
                          unat (hwirq (descs s' (env_kmalloc env j))) = unat b + j"
    using new by blast
  have dv': "devs s' = devs s" using p(6) by simp
  have ex: "\<exists>b. env_hwirq_base env (unat n) = Some b \<and>
            dlist s' ?md (ds @ ?news) \<and>
            (\<forall>j < unat n. hwirq (descs s' (env_kmalloc env j)) = b + of_nat j \<and>
                          unat (hwirq (descs s' (env_kmalloc env j))) = unat b + j)"
    using o(6) p(1) new_all by blast
  show ?thesis
    apply (intro conjI)
           apply (rule pow)
          apply (rule o(5))
         apply (rule nhi)
        apply (rule ret)
       apply (rule nv)
      apply (rule dv')
     apply (rule ex)
    apply (rule irqs)
    apply (rule inv')
    done
qed

text \<open>
  Claim C3. When \<open>msi_alloc_vectors\<close> succeeds and returns \<open>n\<close>, on a registry in the
  state the MSI core keeps it in (\<open>registry_inv\<close>) and with collaborators that keep their
  contracts (\<open>env_ok\<close>): \<open>n\<close> is a power of two with \<open>min_vecs \<le> n \<le> max_vecs\<close>;
  \<open>num_vectors\<close> has grown by exactly \<open>n\<close>; the list is the old list followed by the \<open>n\<close>
  new descriptors in the order of their creation, and their \<open>hwirq\<close> values are
  \<open>base, base + 1, ..., base + n - 1\<close> in that order, without wrap-around, for the base
  the domain reserved; every descriptor reachable from the registry has a non-zero
  \<open>irq\<close>; and the registry is again in the state the MSI core keeps it in.
\<close>

theorem msi_alloc_vectors_success:
  assumes "registry_inv s dv ds" and "env_ok env s dv"
    and "msi_alloc_vectors env dv lo hi fl s = Some (Inr n, s')"
  shows "(\<exists>k. n = 2 ^ k \<and> unat n = 2 ^ k) \<and> lo \<le> n \<and> n \<le> hi \<and> msi_return (Inr n) = int (unat n) \<and>
         num_vectors (regs s' (msi_data (devs s dv))) =
           num_vectors (regs s (msi_data (devs s dv))) + int (unat n) \<and>
         devs s' = devs s \<and>
         (\<exists>b. env_hwirq_base env (unat n) = Some b \<and>
            dlist s' (msi_data (devs s dv)) (ds @ map (env_kmalloc env) [0..<unat n]) \<and>
            (\<forall>j < unat n. hwirq (descs s' (env_kmalloc env j)) = b + of_nat j \<and>
                          unat (hwirq (descs s' (env_kmalloc env j))) = unat b + j)) \<and>
         (\<forall>p \<in> set (ds @ map (env_kmalloc env) [0..<unat n]). irq (descs s' p) \<noteq> 0) \<and>
         registry_inv s' dv (ds @ map (env_kmalloc env) [0..<unat n])"
  using assms by (rule alloc_success_facts)

section \<open>What size selection decides\<close>

lemma alloc_succeeds:
  assumes "registry_inv s dv ds" and "env_ok env s dv" and "\<forall>e. \<not> alloc_failure_cause env lo hi e"
  shows "\<exists>s'. msi_alloc_vectors env dv lo hi fl s = Some (Inr (select_nvec hi), s')"
proof -
  from alloc_outcome[OF assms(1,2), of lo hi fl] obtain r s' where
    o: "msi_alloc_vectors env dv lo hi fl s = Some (r, s')"
       "case r of Inl e \<Rightarrow> registry_restored s s' dv ds \<and> alloc_failure_cause env lo hi e
        | Inr n \<Rightarrow> lo \<noteq> 0 \<and> lo \<le> hi \<and> hi \<le> 32 \<and> n = select_nvec hi \<and> lo \<le> n \<and>
          (\<exists>b. env_hwirq_base env (unat n) = Some b \<and> unat b + unat n \<le> 2 ^ 32 \<and>
               populated env dv (msi_data (devs s dv)) b fl ds 0 (unat n)
                 (irq_domain_reserve (device.msi_domain (devs s dv)) b (unat n) s) s')"
    by blast
  show ?thesis
  proof (cases r)
    case (Inl e)
    with o(2) assms(3) show ?thesis by simp
  next
    case (Inr n)
    with o show ?thesis by simp
  qed
qed

lemma populate_Inr_iff:
  assumes "md \<noteq> 0"
  shows "(\<exists>s'. populate env dv md b fl nvec i s = Inr s') =
         (\<forall>j. i \<le> j \<and> j < unat nvec \<longrightarrow> env_kmalloc env j \<noteq> 0 \<and> env_virq env j \<noteq> 0)"
proof (induction "unat nvec - i" arbitrary: i s)
  case 0
  then have "populate env dv md b fl nvec i s = Inr s" by (subst populate.simps) simp
  moreover from 0 have "\<not> (i \<le> j \<and> j < unat nvec)" for j by simp
  ultimately show ?case by blast
next
  case (Suc n)
  then have lt: "i < unat nvec" by simp
  consider (oom) "env_kmalloc env i = 0" | (nomap) "env_kmalloc env i \<noteq> 0" "env_virq env i = 0"
    | (ok) "env_kmalloc env i \<noteq> 0" "env_virq env i \<noteq> 0"
    by blast
  then show ?case
  proof cases
    case oom
    from populate_step_oom[OF lt oom] have "\<not> (\<exists>s'. populate env dv md b fl nvec i s = Inr s')" by simp
    moreover have "\<not> (\<forall>j. i \<le> j \<and> j < unat nvec \<longrightarrow> env_kmalloc env j \<noteq> 0 \<and> env_virq env j \<noteq> 0)"
      using lt oom by blast
    ultimately show ?thesis by blast
  next
    case nomap
    from populate_step_nomap[OF lt nomap] have "\<not> (\<exists>s'. populate env dv md b fl nvec i s = Inr s')" by simp
    moreover have "\<not> (\<forall>j. i \<le> j \<and> j < unat nvec \<longrightarrow> env_kmalloc env j \<noteq> 0 \<and> env_virq env j \<noteq> 0)"
      using lt nomap by blast
    ultimately show ?thesis by blast
  next
    case ok
    have n: "n = unat nvec - (i + 1)" using Suc.hyps(2) by simp
    have "(\<exists>s'. populate env dv md b fl nvec i s = Inr s') =
          (\<exists>s'. populate env dv md b fl nvec (i + 1) (iter_state env dv md b fl i s) = Inr s')"
      by (simp only: populate_step_ok[OF lt ok assms])
    also have "\<dots> = (\<forall>j. i + 1 \<le> j \<and> j < unat nvec \<longrightarrow> env_kmalloc env j \<noteq> 0 \<and> env_virq env j \<noteq> 0)"
      by (rule Suc.hyps(1)[OF n])
    also have "\<dots> = (\<forall>j. i \<le> j \<and> j < unat nvec \<longrightarrow> env_kmalloc env j \<noteq> 0 \<and> env_virq env j \<noteq> 0)"
    proof
      assume a: "\<forall>j. i + 1 \<le> j \<and> j < unat nvec \<longrightarrow> env_kmalloc env j \<noteq> 0 \<and> env_virq env j \<noteq> 0"
      show "\<forall>j. i \<le> j \<and> j < unat nvec \<longrightarrow> env_kmalloc env j \<noteq> 0 \<and> env_virq env j \<noteq> 0"
      proof (intro allI impI)
        fix j assume j: "i \<le> j \<and> j < unat nvec"
        show "env_kmalloc env j \<noteq> 0 \<and> env_virq env j \<noteq> 0"
        proof (cases "j = i")
          case True with ok show ?thesis by simp
        next
          case False with j have "i + 1 \<le> j \<and> j < unat nvec" by simp
          with a show ?thesis by blast
        qed
      qed
    next
      assume a: "\<forall>j. i \<le> j \<and> j < unat nvec \<longrightarrow> env_kmalloc env j \<noteq> 0 \<and> env_virq env j \<noteq> 0"
      show "\<forall>j. i + 1 \<le> j \<and> j < unat nvec \<longrightarrow> env_kmalloc env j \<noteq> 0 \<and> env_virq env j \<noteq> 0"
      proof (intro allI impI)
        fix j assume "i + 1 \<le> j \<and> j < unat nvec"
        then have "i \<le> j \<and> j < unat nvec" by simp
        with a show "env_kmalloc env j \<noteq> 0 \<and> env_virq env j \<noteq> 0" by blast
      qed
    qed
    finally show ?thesis .
  qed
qed

lemma alloc_success_iff:
  assumes "dv \<noteq> 0" "msi_data (devs s dv) \<noteq> 0" "device.msi_domain (devs s dv) \<noteq> 0"
    and "lo \<noteq> 0" "lo \<le> hi" "hi \<le> 32"
  shows "(\<exists>s'. msi_alloc_vectors env dv lo hi fl s = Some (Inr (select_nvec hi), s')) =
         (\<not> select_nvec hi < lo \<and> env_hwirq_base env (unat (select_nvec hi)) \<noteq> None \<and>
          (\<forall>j < unat (select_nvec hi). env_kmalloc env j \<noteq> 0 \<and> env_virq env j \<noteq> 0))"
proof -
  let ?p = "select_nvec hi"
  note unf = alloc_unfold[OF assms, of env fl]
  show ?thesis
  proof (cases "?p < lo")
    case True
    with unf show ?thesis by simp
  next
    case False
    show ?thesis
    proof (cases "env_hwirq_base env (unat ?p)")
      case None
      with unf False show ?thesis by simp
    next
      case (Some base)
      let ?s0 = "irq_domain_reserve (device.msi_domain (devs s dv)) base (unat ?p) s"
      have iff: "(\<exists>s'. populate env dv (msi_data (devs s dv)) base fl ?p 0 ?s0 = Inr s') =
                 (\<forall>j < unat ?p. env_kmalloc env j \<noteq> 0 \<and> env_virq env j \<noteq> 0)"
        using populate_Inr_iff[OF assms(2), of env dv base fl ?p 0 ?s0] by simp
      show ?thesis
      proof (cases "populate env dv (msi_data (devs s dv)) base fl ?p 0 ?s0")
        case (Inr s1)
        with unf False Some have "msi_alloc_vectors env dv lo hi fl s = Some (Inr ?p, s1)" by simp
        moreover from Inr iff have "\<forall>j < unat ?p. env_kmalloc env j \<noteq> 0 \<and> env_virq env j \<noteq> 0" by blast
        ultimately show ?thesis using False Some by simp
      next
        case (Inl t)
        obtain e i s1 where t: "t = (e, i, s1)" by (cases t)
        from Inl iff have no: "\<not> (\<forall>j < unat ?p. env_kmalloc env j \<noteq> 0 \<and> env_virq env j \<noteq> 0)" by simp
        from unf False Some Inl t have "\<not> (\<exists>s'. msi_alloc_vectors env dv lo hi fl s = Some (Inr ?p, s'))"
          by (simp split: option.splits)
        with no show ?thesis by blast
      qed
    qed
  qed
qed

lemma alloc_returns:
  assumes "dv \<noteq> 0" "msi_data (devs s dv) \<noteq> 0" "device.msi_domain (devs s dv) \<noteq> 0"
    and "lo \<noteq> 0" "lo \<le> hi" "hi \<le> 32"
    and "msi_alloc_vectors env dv lo hi fl s = Some (r, s')"
  shows "(r = Inr (select_nvec hi) \<and> msi_return r = int (unat (select_nvec hi))) \<or> msi_return r = - 1"
proof (cases r)
  case (Inl e)
  then show ?thesis by (simp add: msi_return_def)
next
  case (Inr n)
  have hi1: "1 \<le> hi" using assms(4,5) by (simp add: word_le_nat_alt unat_eq_0 [symmetric] Suc_le_eq)
  note unf = alloc_unfold[OF assms(1-6), of env fl]
  have "n = select_nvec hi" using unf assms(7) Inr
    by (simp split: if_splits option.splits sum.splits prod.splits)
  moreover from select_nvec_cases[OF hi1 assms(6)] have "msi_return (Inr (select_nvec hi)) = int (unat (select_nvec hi))"
    by (auto simp add: msi_return_def)
  ultimately show ?thesis using Inr by simp
qed

lemma pow2_largest:
  assumes "unat p = 2 ^ k" "unat hi < 2 * unat p"
  shows "\<forall>j. 2 ^ j \<le> unat hi \<longrightarrow> (2::nat) ^ j \<le> unat p"
proof (intro allI impI)
  fix j :: nat assume "2 ^ j \<le> unat hi"
  with assms have "(2::nat) ^ j < 2 ^ Suc k" by simp
  then have "j < Suc k" by (simp only: power_strict_increasing_iff[of 2] one_less_numeral_iff semiring_norm)
  then have "j \<le> k" by simp
  then show "(2::nat) ^ j \<le> unat p" using assms(1) by (simp add: power_increasing)
qed

text \<open>
  Claim C2, amended. On a device with a registry and an MSI domain: \<open>min_vecs = 0\<close>,
  \<open>min_vecs > max_vecs\<close> or \<open>max_vecs > 32\<close> makes the call fail (it returns -1, state
  untouched). Otherwise the size-selection loop ends, and the chosen count \<open>p\<close> (its
  result shifted right once) is the largest power of two that is at most \<open>max_vecs\<close>.
  The call fails whenever \<open>p < min_vecs\<close>, in particular when \<open>min_vecs = max_vecs\<close> is not
  a power of two; with \<open>min_vecs = 1\<close> size selection succeeds. The call succeeds with
  \<open>p\<close> exactly when \<open>p \<ge> min_vecs\<close>, the domain hands out a range of \<open>p\<close> ids, and every one
  of the \<open>p\<close> descriptor allocations and mappings succeeds; whatever the call returns is
  \<open>p\<close> or -1; and on a registry in the state the MSI core keeps it in the call returns,
  with -1 exactly when \<open>p < min_vecs\<close> or one of those resources is missing.
\<close>

theorem msi_alloc_vectors_size_selection:
  assumes "dv \<noteq> 0" "msi_data (devs s dv) \<noteq> 0" "device.msi_domain (devs s dv) \<noteq> 0"
  shows "(lo = 0 \<or> lo > hi \<or> hi > 32 \<longrightarrow>
            (\<exists>r. msi_alloc_vectors env dv lo hi fl s = Some (r, s) \<and> msi_return r = - 1)) \<and>
         (lo \<noteq> 0 \<and> lo \<le> hi \<and> hi \<le> 32 \<longrightarrow>
            (\<exists>q p k. nvec_loop 1 hi = Some q \<and> p = drop_bit 1 q \<and>
               unat p = 2 ^ k \<and> p \<le> hi \<and> (\<forall>j. 2 ^ j \<le> unat hi \<longrightarrow> (2::nat) ^ j \<le> unat p) \<and>
               (p < lo \<longrightarrow> (\<exists>r. msi_alloc_vectors env dv lo hi fl s = Some (r, s) \<and> msi_return r = - 1)) \<and>
               (lo = hi \<and> (\<forall>j. unat hi \<noteq> 2 ^ j) \<longrightarrow> p < lo) \<and>
               (lo = 1 \<longrightarrow> \<not> p < lo) \<and>
               ((\<exists>s'. msi_alloc_vectors env dv lo hi fl s = Some (Inr p, s')) =
                  (\<not> p < lo \<and> env_hwirq_base env (unat p) \<noteq> None \<and>
                   (\<forall>j < unat p. env_kmalloc env j \<noteq> 0 \<and> env_virq env j \<noteq> 0))) \<and>
               (\<forall>r s'. msi_alloc_vectors env dv lo hi fl s = Some (r, s') \<longrightarrow>
                  (r = Inr p \<and> msi_return r = int (unat p)) \<or> msi_return r = - 1) \<and>
               (registry_inv s dv ds \<and> env_ok env s dv \<longrightarrow>
                  (\<exists>r s'. msi_alloc_vectors env dv lo hi fl s = Some (r, s') \<and>
                     ((msi_return r = - 1) =
                        (p < lo \<or> env_hwirq_base env (unat p) = None \<or>
                         (\<exists>j < unat p. env_kmalloc env j = 0 \<or> env_virq env j = 0)))))))"
proof (intro conjI impI)
  assume "lo = 0 \<or> lo > hi \<or> hi > 32"
  then have "msi_alloc_vectors env dv lo hi fl s = Some (Inl Invalid_argument, s)"
    by (intro alloc_invalid) blast
  then show "\<exists>r. msi_alloc_vectors env dv lo hi fl s = Some (r, s) \<and> msi_return r = - 1"
    by (simp add: msi_return_def)
next
  assume a: "lo \<noteq> 0 \<and> lo \<le> hi \<and> hi \<le> 32"
  then have args: "lo \<noteq> 0" "lo \<le> hi" "hi \<le> 32" by auto
  have hi1: "1 \<le> hi" using args(1,2) by (simp add: word_le_nat_alt unat_eq_0 [symmetric] Suc_le_eq)
  let ?p = "select_nvec hi"
  let ?call = "msi_alloc_vectors env dv lo hi fl s"
  let ?res = "\<not> ?p < lo \<and> env_hwirq_base env (unat ?p) \<noteq> None \<and>
              (\<forall>j < unat ?p. env_kmalloc env j \<noteq> 0 \<and> env_virq env j \<noteq> 0)"
  from nvec_loop_select[OF args(3)] obtain q where q: "nvec_loop 1 hi = Some q" "drop_bit 1 q = ?p"
    by auto
  from select_nvec_pow2[OF hi1 args(3)] obtain k where k: "unat ?p = 2 ^ k" by blast
  note b = select_nvec_bounds[OF hi1 args(3)]
  note unf = alloc_unfold[OF assms args, of env fl]
  have c5: "\<forall>j. 2 ^ j \<le> unat hi \<longrightarrow> (2::nat) ^ j \<le> unat ?p" by (rule pow2_largest[OF k b(2)])
  have c6: "?p < lo \<longrightarrow> (\<exists>r. ?call = Some (r, s) \<and> msi_return r = - 1)"
  proof
    assume "?p < lo"
    with unf have "?call = Some (Inl No_power_of_two, s)" by simp
    then show "\<exists>r. ?call = Some (r, s) \<and> msi_return r = - 1" by (simp add: msi_return_def)
  qed
  have c7: "lo = hi \<and> (\<forall>j. unat hi \<noteq> 2 ^ j) \<longrightarrow> ?p < lo"
  proof
    assume that: "lo = hi \<and> (\<forall>j. unat hi \<noteq> 2 ^ j)"
    with k have "unat ?p \<noteq> unat hi" by metis
    with b(1) that show "?p < lo" by (simp add: word_less_nat_alt word_le_nat_alt)
  qed
  have c8: "lo = 1 \<longrightarrow> \<not> ?p < lo"
    using b(3) by (simp add: word_less_nat_alt)
  have c9: "(\<exists>s'. ?call = Some (Inr ?p, s')) = ?res"
    by (rule alloc_success_iff[OF assms args])
  have c10: "\<forall>r s'. ?call = Some (r, s') \<longrightarrow>
               (r = Inr ?p \<and> msi_return r = int (unat ?p)) \<or> msi_return r = - 1"
    using alloc_returns[OF assms args] by blast
  have c11: "registry_inv s dv ds \<and> env_ok env s dv \<longrightarrow>
       (\<exists>r s'. ?call = Some (r, s') \<and>
          ((msi_return r = - 1) =
             (?p < lo \<or> env_hwirq_base env (unat ?p) = None \<or>
              (\<exists>j < unat ?p. env_kmalloc env j = 0 \<or> env_virq env j = 0))))"
  proof
    assume inv: "registry_inv s dv ds \<and> env_ok env s dv"
    from alloc_outcome[of s dv ds env lo hi fl] inv obtain r s' where
      o: "?call = Some (r, s')" by blast
    from alloc_returns[OF assms args o]
    have alt: "(r = Inr ?p \<and> msi_return r = int (unat ?p)) \<or> msi_return r = - 1" .
    have "(msi_return r = - 1) = (\<not> ?res)"
    proof (cases "r = Inr ?p")
      case True
      from select_nvec_cases[OF hi1 args(3)] have "msi_return (Inr ?p) = int (unat ?p)"
        by (auto simp add: msi_return_def)
      moreover have "int (unat ?p) \<noteq> - 1" using of_nat_0_le_iff[of "unat ?p", where ?'a = int] by linarith
      ultimately have "msi_return r \<noteq> - 1" using True by metis
      moreover from True o c9 have "?res" by blast
      ultimately show ?thesis by blast
    next
      case False
      with alt have m: "msi_return r = - 1" by blast
      have "\<not> (\<exists>s'. ?call = Some (Inr ?p, s'))" using o False by auto
      with c9 have "\<not> ?res" by blast
      with m show ?thesis by blast
    qed
    moreover have "(\<not> ?res) =
             (?p < lo \<or> env_hwirq_base env (unat ?p) = None \<or>
              (\<exists>j < unat ?p. env_kmalloc env j = 0 \<or> env_virq env j = 0))" by auto
    ultimately have "(msi_return r = - 1) =
             (?p < lo \<or> env_hwirq_base env (unat ?p) = None \<or>
              (\<exists>j < unat ?p. env_kmalloc env j = 0 \<or> env_virq env j = 0))" by (rule trans)
    with o show "\<exists>r s'. ?call = Some (r, s') \<and>
          ((msi_return r = - 1) =
             (?p < lo \<or> env_hwirq_base env (unat ?p) = None \<or>
              (\<exists>j < unat ?p. env_kmalloc env j = 0 \<or> env_virq env j = 0)))" by blast
  qed
  show "\<exists>q p k. nvec_loop 1 hi = Some q \<and> p = drop_bit 1 q \<and>
               unat p = 2 ^ k \<and> p \<le> hi \<and> (\<forall>j. 2 ^ j \<le> unat hi \<longrightarrow> (2::nat) ^ j \<le> unat p) \<and>
               (p < lo \<longrightarrow> (\<exists>r. msi_alloc_vectors env dv lo hi fl s = Some (r, s) \<and> msi_return r = - 1)) \<and>
               (lo = hi \<and> (\<forall>j. unat hi \<noteq> 2 ^ j) \<longrightarrow> p < lo) \<and>
               (lo = 1 \<longrightarrow> \<not> p < lo) \<and>
               ((\<exists>s'. msi_alloc_vectors env dv lo hi fl s = Some (Inr p, s')) =
                  (\<not> p < lo \<and> env_hwirq_base env (unat p) \<noteq> None \<and>
                   (\<forall>j < unat p. env_kmalloc env j \<noteq> 0 \<and> env_virq env j \<noteq> 0))) \<and>
               (\<forall>r s'. msi_alloc_vectors env dv lo hi fl s = Some (r, s') \<longrightarrow>
                  (r = Inr p \<and> msi_return r = int (unat p)) \<or> msi_return r = - 1) \<and>
               (registry_inv s dv ds \<and> env_ok env s dv \<longrightarrow>
                  (\<exists>r s'. msi_alloc_vectors env dv lo hi fl s = Some (r, s') \<and>
                     ((msi_return r = - 1) =
                        (p < lo \<or> env_hwirq_base env (unat p) = None \<or>
                         (\<exists>j < unat p. env_kmalloc env j = 0 \<or> env_virq env j = 0)))))"
    apply (rule exI[of _ q], rule exI[of _ ?p], rule exI[of _ k])
    apply (intro conjI)
             apply (rule q(1))
            apply (rule q(2)[symmetric])
           apply (rule k)
          apply (rule b(1))
         apply (rule c5)
        apply (rule c6)
       apply (rule c7)
      apply (rule c8)
     apply (rule c9)
     apply (rule c10)
    apply (rule c11)
    done
qed


section \<open>Freeing vectors and cleaning up\<close>

lemma msi_device_init_inv:
  assumes "dv \<noteq> 0" "p \<noteq> 0" "device.msi_domain (devs s dv) \<noteq> 0"
  shows "fst (msi_device_init p dv s) = 0" and "registry_inv (snd (msi_device_init p dv s)) dv []"
  using assms
  by (simp_all add: msi_device_init_def Let_def registry_inv_def dlist_Nil set_list_next_def
      set_list_prev_def)


lemma free_vectors_facts:
  assumes "dv \<noteq> 0" "msi_data (devs s dv) \<noteq> 0" "device.msi_domain (devs s dv) \<noteq> 0"
    and "dlist s (msi_data (devs s dv)) ds"
    and "num_vectors (regs s (msi_data (devs s dv))) = int (length ds)"
  shows "\<exists>s'. msi_free_vectors dv s = Some s' \<and>
           num_vectors (regs s' (msi_data (devs s dv))) = 0 \<and>
           dlist s' (msi_data (devs s dv)) [] \<and> devs s' = devs s \<and>
           live s' = live s - set ds \<and> descs s' = descs s"
proof -
  let ?md = "msi_data (devs s dv)"
  from free_walk_ok[OF assms(4), of dv] obtain s' where
    r: "free_walk dv ?md (list_next (heads s ?md)) s = Some s'" "dlist s' ?md []"
       "num_vectors (regs s' ?md) = num_vectors (regs s ?md) - int (length ds)"
       "live s' = live s - set ds" "descs s' = descs s" "devs s' = devs s" by blast
  have run: "msi_free_vectors dv s = Some s'"
    using assms(1,2,3) r(1) by (simp add: msi_free_vectors_def Let_def)
  have nv: "num_vectors (regs s' ?md) = 0" using r(3) assms(5) by simp
  with run r(2,4,5,6) show ?thesis by simp
qed

lemma registry_inv_free:
  assumes "registry_inv s dv ds"
  shows "\<exists>s'. msi_free_vectors dv s = Some s' \<and> registry_inv s' dv [] \<and>
           live s' = live s - set ds \<and> descs s' = descs s"
proof -
  let ?md = "msi_data (devs s dv)"
  from assms have i: "dv \<noteq> 0" "?md \<noteq> 0" "device.msi_domain (devs s dv) \<noteq> 0" "dlist s ?md ds"
    "num_vectors (regs s ?md) = int (length ds)" "set (?md # ds) \<subseteq> live s"
    by (simp_all add: registry_inv_def)
  from free_vectors_facts[OF i(1-5)] obtain s' where
    r: "msi_free_vectors dv s = Some s'" "num_vectors (regs s' ?md) = 0" "dlist s' ?md []"
       "devs s' = devs s" "live s' = live s - set ds" "descs s' = descs s" by blast
  from i(4) have "?md \<notin> set ds" by (simp add: dlist_def)
  with i(6) r(5) have "?md \<in> live s'" by auto
  with i(1,2,3) r(2,3,4) have "registry_inv s' dv []" by (simp add: registry_inv_def)
  with r(1,5,6) show ?thesis by simp
qed

text \<open>
  Claim C7. After \<open>msi_free_vectors\<close> on a device with a registry and an MSI domain,
  \<open>num_vectors\<close> is 0 and the sentinel is self-referential (its \<open>next\<close> and its \<open>prev\<close> are
  the sentinel, the list is empty), whatever descriptors \<open>ds\<close> the registry held, provided
  its list was well formed and \<open>num_vectors\<close> was its length. That is so in every state
  the MSI core produces: \<open>msi_device_init\<close> establishes \<open>registry_inv\<close>, and
  \<open>msi_alloc_vectors\<close> (successful or not) and \<open>msi_free_vectors\<close> keep it
  (\<open>msi_device_init_inv\<close>, \<open>alloc_success_facts\<close>, \<open>registry_restored_inv\<close>,
  \<open>registry_inv_free\<close>); so the number and the sizes of the blocks allocated before do
  not matter.
\<close>

theorem msi_free_vectors_empties:
  assumes "dv \<noteq> 0" "msi_data (devs s dv) \<noteq> 0" "device.msi_domain (devs s dv) \<noteq> 0"
    and "dlist s (msi_data (devs s dv)) ds"
    and "num_vectors (regs s (msi_data (devs s dv))) = int (length ds)"
  shows "\<exists>s'. msi_free_vectors dv s = Some s' \<and>
           num_vectors (regs s' (msi_data (devs s dv))) = 0 \<and>
           list_next (heads s' (msi_data (devs s dv))) = msi_data (devs s dv) \<and>
           list_prev (heads s' (msi_data (devs s dv))) = msi_data (devs s dv) \<and>
           devs s' = devs s"
  using free_vectors_facts[OF assms] by (auto simp add: dlist_Nil)

text \<open>
  Claim C10. After a successful \<open>msi_alloc_vectors\<close> every descriptor it put into the
  registry has reference count 2 (1 from \<open>msi_desc_alloc_internal\<close>, 1 from
  \<open>msi_desc_list_add_locked\<close>), and the older ones keep theirs. \<open>msi_device_cleanup\<close>
  then returns, having decremented each count once: every descriptor is still a live
  block, with count 1, none was freed; the sentinel is self-referential, so no
  descriptor is linked to the registry any more; the registry itself is freed and the
  device's pointer to it is \<open>NULL\<close>.
\<close>

theorem msi_device_cleanup_leaves_descriptors:
  assumes "registry_inv s dv ds" and "env_ok env s dv"
    and "msi_alloc_vectors env dv lo hi fl s = Some (Inr n, s1)"
    and "\<forall>p \<in> set ds. refcount (descs s p) = 2"
  shows "\<exists>s2. dlist s1 (msi_data (devs s dv)) (ds @ map (env_kmalloc env) [0..<unat n]) \<and>
           (\<forall>p \<in> set (map (env_kmalloc env) [0..<unat n]). refcount (descs s1 p) = 2) \<and>
           (\<forall>p \<in> set ds. refcount (descs s1 p) = 2) \<and>
           msi_device_cleanup dv s1 = Some s2 \<and>
           (\<forall>p \<in> set (ds @ map (env_kmalloc env) [0..<unat n]). p \<in> live s2 \<and> refcount (descs s2 p) = 1) \<and>
           list_next (heads s2 (msi_data (devs s dv))) = msi_data (devs s dv) \<and>
           list_prev (heads s2 (msi_data (devs s dv))) = msi_data (devs s dv) \<and>
           msi_data (devs s dv) \<notin> live s2 \<and> msi_data (devs s2 dv) = 0"
proof -
  let ?md = "msi_data (devs s dv)"
  let ?dom = "device.msi_domain (devs s dv)"
  from alloc_outcome[OF assms(1,2), of lo hi fl] assms(3) obtain b where
    o: "populated env dv ?md b fl ds 0 (unat n) (irq_domain_reserve ?dom b (unat n) s) s1"
    by auto
  let ?news = "map (env_kmalloc env) [0..<unat n]"
  let ?s0 = "irq_domain_reserve ?dom b (unat n) s"
  from o have p: "dlist s1 ?md (ds @ ?news)"
    "live s1 = live ?s0 \<union> env_kmalloc env ` {0..<unat n}"
    "\<forall>j \<in> {0..<unat n}. env_kmalloc env j \<noteq> 0 \<and> env_virq env j \<noteq> 0 \<and>
         descs s1 (env_kmalloc env j) =
           \<lparr>dev = dv, hwirq = b + of_nat j, irq = env_virq env j,
            msi_attrib = fl AND 0xFFFF, multiple = 0, refcount = 2\<rparr>"
    "\<forall>p \<in> live ?s0. descs s1 p = descs ?s0 p"
    "devs s1 = devs ?s0"
    by (simp_all add: populated_def)
  from assms(1) have i: "dv \<noteq> 0" "?md \<noteq> 0" "set (?md # ds) \<subseteq> live s"
    by (simp_all add: registry_inv_def)
  have dv1: "devs s1 = devs s" using p(5) by simp
  have rnew: "\<forall>x \<in> set ?news. refcount (descs s1 x) = 2" using p(3) by auto
  have rold: "\<forall>x \<in> set ds. refcount (descs s1 x) = 2"
  proof
    fix x assume x: "x \<in> set ds"
    with i(3) have "x \<in> live ?s0" by auto
    with p(4) have "descs s1 x = descs s x" by simp
    with assms(4) x show "refcount (descs s1 x) = 2" by simp
  qed
  have rall: "\<forall>x \<in> set (ds @ ?news). refcount (descs s1 x) = 2" using rnew rold by auto
  from cleanup_walk_ok[OF p(1)] obtain s' where
    w: "cleanup_walk ?md (list_next (heads s1 ?md)) s1 = Some s'" "dlist s' ?md []"
       "live s' = live s1 - {x \<in> set (ds @ ?news). refcount (descs s1 x) = 1}"
       "\<forall>x \<in> set (ds @ ?news). descs s' x = (descs s1 x)\<lparr>refcount := refcount (descs s1 x) - 1\<rparr>"
       "devs s' = devs s1"
    by blast
  let ?s2 = "set_msi_data dv 0 (kfree ?md s')"
  have run: "msi_device_cleanup dv s1 = Some ?s2"
    using i(1,2) w(1) by (simp add: msi_device_cleanup_def dv1 Let_def)
  have none1: "{x \<in> set (ds @ ?news). refcount (descs s1 x) = 1} = {}" using rall by auto
  have lv: "live s' = live s1" unfolding w(3) none1 by simp
  from p(1) have mdnot: "?md \<notin> set (ds @ ?news)" by (simp add: dlist_def)
  have inl: "set (ds @ ?news) \<subseteq> live s1" using i(3) p(2) by auto
  have after: "\<forall>x \<in> set (ds @ ?news). x \<in> live ?s2 \<and> refcount (descs ?s2 x) = 1"
  proof
    fix x assume x: "x \<in> set (ds @ ?news)"
    with mdnot have "x \<noteq> ?md" by metis
    with x inl lv have "x \<in> live ?s2" by auto
    moreover from w(4) x rall have "refcount (descs ?s2 x) = 1" by simp
    ultimately show "x \<in> live ?s2 \<and> refcount (descs ?s2 x) = 1" by simp
  qed
  have sent: "list_next (heads ?s2 ?md) = ?md" "list_prev (heads ?s2 ?md) = ?md"
    using w(2) by (simp_all add: dlist_Nil)
  have gone: "?md \<notin> live ?s2" "msi_data (devs ?s2 dv) = 0" by simp_all
  show ?thesis
    apply (rule exI[of _ ?s2])
    apply (intro conjI)
            apply (rule p(1))
           apply (rule rnew)
          apply (rule rold)
         apply (rule run)
        apply (rule after)
       apply (rule sent(1))
      apply (rule sent(2))
     apply (rule gone(1))
    apply (rule gone(2))
    done
qed

section \<open>Concrete runs\<close>

lemma k_fresh_fields:
  "live k_fresh = {10}" "devs k_fresh 1 = \<lparr>msi_data = 10, msi_domain = 3\<rparr>"
  "devs k_fresh (Suc 0) = \<lparr>msi_data = 10, msi_domain = 3\<rparr>"
  "reserved (domains k_fresh 3) = {}" "num_vectors (regs k_fresh 10) = 0"
  by (simp_all add: k_fresh_def k_boot_def msi_device_init_def Let_def)

lemma k_fresh_inv: "registry_inv k_fresh 1 []"
  unfolding k_fresh_def by (rule msi_device_init_inv) (simp_all add: k_boot_def)

lemma env_good_ok: "env_ok env_good k_fresh 1"
  by (auto simp add: env_ok_def env_good_def k_fresh_fields)

lemma env_nomap_ok: "env_ok env_nomap k_fresh 1"
  by (auto simp add: env_ok_def env_nomap_def k_fresh_fields)

lemma select_nvec_values: "select_nvec 7 = 4" "select_nvec 2 = 2" "select_nvec 1 = 1"
  by (simp_all add: select_nvec_def)

lemma word_of_nat_100: "k < 32 \<Longrightarrow> (100 + of_nat k :: u32) \<noteq> 0"
proof -
  assume "k < 32"
  then have "unat (100 + of_nat k :: u32) = 100 + k"
    using unat_offset[of 100 32 k] by simp
  then show ?thesis by (metis add_is_0 unat_0 zero_neq_numeral)
qed

lemma alloc_good_3_7: "\<exists>s'. msi_alloc_vectors env_good 1 3 7 0 k_fresh = Some (Inr 4, s')"
proof -
  have "\<not> alloc_failure_cause env_good 3 7 e" for e
    by (cases e) (auto simp add: alloc_failure_cause_def select_nvec_values env_good_def word_of_nat_100)
  from alloc_succeeds[OF k_fresh_inv env_good_ok, of 3 7 0] this show ?thesis
    by (simp add: select_nvec_values)
qed

lemma alloc_good_1_1: "\<exists>s'. msi_alloc_vectors env_good 1 1 1 0 k_fresh = Some (Inr 1, s')"
proof -
  have "\<not> alloc_failure_cause env_good 1 1 e" for e
    by (cases e) (auto simp add: alloc_failure_cause_def select_nvec_values env_good_def word_of_nat_100)
  from alloc_succeeds[OF k_fresh_inv env_good_ok, of 1 1 0] this show ?thesis
    by (simp add: select_nvec_values)
qed

lemma alloc_nomap_2_2: "\<exists>s'. msi_alloc_vectors env_nomap 1 2 2 0 k_fresh = Some (Inl Mapping_failed, s')"
proof -
  from alloc_outcome[OF k_fresh_inv env_nomap_ok, of 2 2 0] obtain r s' where
    o: "msi_alloc_vectors env_nomap 1 2 2 0 k_fresh = Some (r, s')"
       "case r of Inl e \<Rightarrow> registry_restored k_fresh s' 1 [] \<and> alloc_failure_cause env_nomap 2 2 e
        | Inr n \<Rightarrow> (2::u32) \<noteq> 0 \<and> (2::u32) \<le> 2 \<and> (2::u32) \<le> 32 \<and> n = select_nvec 2 \<and> 2 \<le> n \<and>
          (\<exists>b. env_hwirq_base env_nomap (unat n) = Some b \<and> unat b + unat n \<le> 2 ^ 32 \<and>
               populated env_nomap 1 (msi_data (devs k_fresh 1)) b 0 [] 0 (unat n)
                 (irq_domain_reserve (device.msi_domain (devs k_fresh 1)) b (unat n) k_fresh) s')"
    by blast
  show ?thesis
  proof (cases r)
    case (Inl e)
    with o(2) have c: "alloc_failure_cause env_nomap 2 2 e" by simp
    have "e = Mapping_failed"
      using c by (cases e) (auto simp add: alloc_failure_cause_def select_nvec_values env_nomap_def)
    with o(1) Inl show ?thesis by simp
  next
    case (Inr n)
    with o(2) obtain b where "populated env_nomap 1 (msi_data (devs k_fresh 1)) b 0 [] 0 2
                 (irq_domain_reserve (device.msi_domain (devs k_fresh 1)) b 2 k_fresh) s'"
      by (auto simp add: select_nvec_values)
    then have "\<forall>j \<in> {0..<2}. env_virq env_nomap j \<noteq> 0" by (simp add: populated_def)
    then have "env_virq env_nomap 1 \<noteq> 0" by simp
    then show ?thesis by (simp add: env_nomap_def)
  qed
qed


lemma alloc_k_four: "msi_alloc_vectors env_good 1 3 7 0 k_fresh = Some (Inr 4, k_four)"
  using alloc_good_3_7 by (auto simp add: k_four_def)

lemma alloc_k_one: "msi_alloc_vectors env_good 1 1 1 0 k_fresh = Some (Inr 1, k_one)"
  using alloc_good_1_1 by (auto simp add: k_one_def)

lemma alloc_k_failed: "msi_alloc_vectors env_nomap 1 2 2 0 k_fresh = Some (Inl Mapping_failed, k_failed)"
  using alloc_nomap_2_2 by (auto simp add: k_failed_def)

lemma new_blocks: "map (env_kmalloc env_good) [0..<4] = [20, 21, 22, 23]"
  "map (env_kmalloc env_good) [0..<1] = [20]"
  by (simp_all add: env_good_def upt_rec)

lemma k_four_facts:
  "registry_inv k_four 1 [20, 21, 22, 23]" "devs k_four = devs k_fresh"
  using alloc_success_facts[OF k_fresh_inv env_good_ok alloc_k_four] by (simp_all add: new_blocks)

lemma k_one_facts:
  "registry_inv k_one 1 [20]" "devs k_one = devs k_fresh" "refcount (descs k_one 20) = 2"
proof -
  from alloc_success_facts[OF k_fresh_inv env_good_ok alloc_k_one]
  show "registry_inv k_one 1 [20]" "devs k_one = devs k_fresh" by (simp_all add: env_good_def)
  from alloc_outcome[OF k_fresh_inv env_good_ok, of 1 1 0] alloc_k_one
  obtain b where "populated env_good 1 (msi_data (devs k_fresh 1)) b 0 [] 0 (unat (1::u32))
                 (irq_domain_reserve (device.msi_domain (devs k_fresh 1)) b (unat (1::u32)) k_fresh) k_one"
    by auto
  then have "\<forall>j \<in> {0..<1}. descs k_one (env_kmalloc env_good j) =
           \<lparr>dev = 1, hwirq = b + of_nat j, irq = env_virq env_good j,
            msi_attrib = 0 AND 0xFFFF, multiple = 0, refcount = 2\<rparr>"
    by (simp add: populated_def)
  then show "refcount (descs k_one 20) = 2" by (simp add: env_good_def)
qed

theorem msi_alloc_vectors_success_witness:
  "registry_inv k_fresh 1 [] \<and> env_ok env_good k_fresh 1 \<and>
   msi_alloc_vectors env_good 1 3 7 0 k_fresh = Some (Inr 4, k_four) \<and>
   num_vectors (regs k_four 10) = 4 \<and> dlist k_four 10 [20, 21, 22, 23] \<and>
   hwirq (descs k_four 20) = 64 \<and> hwirq (descs k_four 23) = 67 \<and>
   irq (descs k_four 23) \<noteq> 0 \<and> registry_inv k_four 1 [20, 21, 22, 23]"
proof -
  note t = msi_alloc_vectors_success[OF k_fresh_inv env_good_ok alloc_k_four]
  from t have nv: "num_vectors (regs k_four (msi_data (devs k_fresh 1))) =
      num_vectors (regs k_fresh (msi_data (devs k_fresh 1))) + int (unat (4::u32))" by blast
  from t obtain b where b: "env_hwirq_base env_good (unat (4::u32)) = Some b"
     "dlist k_four (msi_data (devs k_fresh 1)) ([] @ map (env_kmalloc env_good) [0..<unat (4::u32)])"
     "\<forall>j < unat (4::u32). hwirq (descs k_four (env_kmalloc env_good j)) = b + of_nat j \<and>
                          unat (hwirq (descs k_four (env_kmalloc env_good j))) = unat b + j"
    by blast
  from t have irqs: "\<forall>p \<in> set ([] @ map (env_kmalloc env_good) [0..<unat (4::u32)]). irq (descs k_four p) \<noteq> 0"
    and inv: "registry_inv k_four 1 ([] @ map (env_kmalloc env_good) [0..<unat (4::u32)])" by blast+
  from b(1) have b64: "b = 64" by (simp add: env_good_def)
  from b(3) have "hwirq (descs k_four (env_kmalloc env_good 0)) = b + of_nat 0"
    "hwirq (descs k_four (env_kmalloc env_good 3)) = b + of_nat 3" by simp_all
  then have h: "hwirq (descs k_four 20) = 64" "hwirq (descs k_four 23) = 67"
    by (simp_all add: b64 env_good_def)
  from irqs have i: "irq (descs k_four 23) \<noteq> 0" by (simp add: new_blocks)
  from nv b(2) inv h i show ?thesis
    using k_fresh_inv env_good_ok alloc_k_four by (simp add: k_fresh_fields new_blocks)
qed

theorem msi_alloc_vectors_size_selection_witness:
  "nvec_loop 1 7 = Some 8 \<and> drop_bit 1 (8::u32) = 4 \<and>
   msi_alloc_vectors env_good 1 3 7 0 k_fresh = Some (Inr 4, k_four) \<and>
   msi_return (Inr 4) = 4 \<and>
   snd (the (msi_alloc_vectors env_good 1 7 7 0 k_fresh)) = k_fresh \<and>
   msi_return (fst (the (msi_alloc_vectors env_good 1 7 7 0 k_fresh))) = - 1 \<and>
   snd (the (msi_alloc_vectors env_good 1 0 5 0 k_fresh)) = k_fresh \<and>
   msi_return (fst (the (msi_alloc_vectors env_good 1 0 5 0 k_fresh))) = - 1 \<and>
   msi_return (fst (the (msi_alloc_vectors env_nomap 1 2 2 0 k_fresh))) = - 1"
proof -
  have nz: "(1::addr) \<noteq> 0" "msi_data (devs k_fresh 1) \<noteq> 0" "device.msi_domain (devs k_fresh 1) \<noteq> 0"
    by (simp_all add: k_fresh_fields)
  have l7: "nvec_loop 1 7 = Some 8" using nvec_loop_value[of 7] by simp
  have l2: "nvec_loop 1 2 = Some 4" using nvec_loop_value[of 2] by simp
  have d: "drop_bit 1 (8::u32) = 4" "drop_bit 1 (4::u32) = 2" by (simp_all add: drop_bit_eq_div)
  have u: "unat (4::u32) = 4" "unat (2::u32) = 2" by simp_all
  have good: "\<forall>j < 4. env_kmalloc env_good j \<noteq> 0 \<and> env_virq env_good j \<noteq> 0"
    by (simp add: env_good_def word_of_nat_100)
  have base: "env_hwirq_base env_good 4 \<noteq> None" by (simp add: env_good_def)
  from msi_alloc_vectors_size_selection[OF nz, of 3 7 env_good 0 "[]"] l7
  have "(\<exists>s'. msi_alloc_vectors env_good 1 3 7 0 k_fresh = Some (Inr 4, s')) =
          (\<not> (4::u32) < 3 \<and> env_hwirq_base env_good (unat (4::u32)) \<noteq> None \<and>
           (\<forall>j < unat (4::u32). env_kmalloc env_good j \<noteq> 0 \<and> env_virq env_good j \<noteq> 0))"
    by (auto simp add: d)
  with good base u have "\<exists>s'. msi_alloc_vectors env_good 1 3 7 0 k_fresh = Some (Inr 4, s')"
    by simp
  then have a: "msi_alloc_vectors env_good 1 3 7 0 k_fresh = Some (Inr 4, k_four)"
    by (auto simp add: k_four_def)
  have r4: "msi_return (Inr 4) = 4" by (simp add: msi_return_def)
  from msi_alloc_vectors_size_selection[OF nz, of 7 7 env_good 0 "[]"] l7
  have "\<exists>r. msi_alloc_vectors env_good 1 7 7 0 k_fresh = Some (r, k_fresh) \<and> msi_return r = - 1"
    by (auto simp add: d)
  then have b: "snd (the (msi_alloc_vectors env_good 1 7 7 0 k_fresh)) = k_fresh"
    "msi_return (fst (the (msi_alloc_vectors env_good 1 7 7 0 k_fresh))) = - 1"
    by auto
  from msi_alloc_vectors_size_selection[OF nz, of 0 5 env_good 0 "[]"]
  have "\<exists>r. msi_alloc_vectors env_good 1 0 5 0 k_fresh = Some (r, k_fresh) \<and> msi_return r = - 1"
    by simp
  then have c: "snd (the (msi_alloc_vectors env_good 1 0 5 0 k_fresh)) = k_fresh"
    "msi_return (fst (the (msi_alloc_vectors env_good 1 0 5 0 k_fresh))) = - 1"
    by auto
  have inv: "registry_inv k_fresh 1 [] \<and> env_ok env_nomap k_fresh 1"
    using k_fresh_inv env_nomap_ok by simp
  have nomap: "\<exists>j < 2. env_kmalloc env_nomap j = 0 \<or> env_virq env_nomap j = 0"
    by (intro exI[of _ 1]) (simp add: env_nomap_def)
  from msi_alloc_vectors_size_selection[OF nz, of 2 2 env_nomap 0 "[]"] l2 inv
  have "\<exists>r s'. msi_alloc_vectors env_nomap 1 2 2 0 k_fresh = Some (r, s') \<and>
          ((msi_return r = - 1) =
             ((2::u32) < 2 \<or> env_hwirq_base env_nomap (unat (2::u32)) = None \<or>
              (\<exists>j < unat (2::u32). env_kmalloc env_nomap j = 0 \<or> env_virq env_nomap j = 0)))"
    by (auto simp add: d)
  with nomap u have e: "msi_return (fst (the (msi_alloc_vectors env_nomap 1 2 2 0 k_fresh))) = - 1"
    by auto
  from l7 d(1) a r4 b c e show ?thesis by simp
qed

text \<open>
  Claim C2, as stated, fails: the call does not fail exactly when the chosen power of
  two is below \<open>min_vecs\<close>. For \<open>min_vecs = max_vecs = 2\<close> the chosen count is 2, which is
  not below \<open>min_vecs\<close>, and the call still returns -1 when the mapping of the second
  vector fails.
\<close>

theorem msi_alloc_vectors_size_selection_counterexample:
  "(1::addr) \<noteq> 0 \<and> msi_data (devs k_fresh 1) \<noteq> 0 \<and> device.msi_domain (devs k_fresh 1) \<noteq> 0 \<and>
   (2::u32) \<noteq> 0 \<and> (2::u32) \<le> 2 \<and> (2::u32) \<le> 32 \<and>
   nvec_loop 1 2 = Some 4 \<and> drop_bit 1 (4::u32) = 2 \<and> \<not> (2::u32) < 2 \<and>
   msi_alloc_vectors env_nomap 1 2 2 0 k_fresh = Some (Inl Mapping_failed, k_failed) \<and>
   msi_return (Inl Mapping_failed) = - 1"
proof -
  have l: "nvec_loop 1 2 = Some 4" using nvec_loop_value[of 2] by simp
  have d: "drop_bit 1 (4::u32) = 2" by (simp add: drop_bit_eq_div)
  from l d alloc_k_failed show ?thesis by (simp add: k_fresh_fields msi_return_def)
qed

theorem msi_free_vectors_empties_witness:
  "dlist k_four 10 [20, 21, 22, 23] \<and> num_vectors (regs k_four 10) = 4 \<and>
   msi_free_vectors 1 k_four \<noteq> None \<and>
   num_vectors (regs (the (msi_free_vectors 1 k_four)) 10) = 0 \<and>
   list_next (heads (the (msi_free_vectors 1 k_four)) 10) = 10 \<and>
   list_prev (heads (the (msi_free_vectors 1 k_four)) 10) = 10"
proof -
  from k_four_facts(1) have i: "(1::addr) \<noteq> 0" "msi_data (devs k_four 1) \<noteq> 0"
    "device.msi_domain (devs k_four 1) \<noteq> 0" "dlist k_four (msi_data (devs k_four 1)) [20, 21, 22, 23]"
    "num_vectors (regs k_four (msi_data (devs k_four 1))) = int (length [20, 21, 22, 23 :: addr])"
    by (simp_all add: registry_inv_def)
  from msi_free_vectors_empties[OF i] obtain s' where
    "msi_free_vectors 1 k_four = Some s'"
    "num_vectors (regs s' (msi_data (devs k_four 1))) = 0"
    "list_next (heads s' (msi_data (devs k_four 1))) = msi_data (devs k_four 1)"
    "list_prev (heads s' (msi_data (devs k_four 1))) = msi_data (devs k_four 1)"
    by blast
  then show ?thesis using i(4,5) by (simp add: k_four_facts(2) k_fresh_fields)
qed

theorem msi_device_cleanup_leaves_descriptors_witness:
  "msi_alloc_vectors env_good 1 3 7 0 k_fresh = Some (Inr 4, k_four) \<and>
   refcount (descs k_four 21) = 2 \<and> msi_device_cleanup 1 k_four \<noteq> None \<and>
   21 \<in> live (the (msi_device_cleanup 1 k_four)) \<and>
   refcount (descs (the (msi_device_cleanup 1 k_four)) 21) = 1 \<and>
   10 \<notin> live (the (msi_device_cleanup 1 k_four)) \<and>
   msi_data (devs (the (msi_device_cleanup 1 k_four)) 1) = 0"
proof -
  have none: "\<forall>p \<in> set ([] :: addr list). refcount (descs k_fresh p) = 2" by simp
  from msi_device_cleanup_leaves_descriptors[OF k_fresh_inv env_good_ok alloc_k_four none]
  obtain s2 where r:
    "\<forall>p \<in> set (map (env_kmalloc env_good) [0..<unat (4::u32)]). refcount (descs k_four p) = 2"
    "msi_device_cleanup 1 k_four = Some s2"
    "\<forall>p \<in> set ([] @ map (env_kmalloc env_good) [0..<unat (4::u32)]). p \<in> live s2 \<and> refcount (descs s2 p) = 1"
    "msi_data (devs k_fresh 1) \<notin> live s2" "msi_data (devs s2 1) = 0"
    by blast
  from r(1) have a: "refcount (descs k_four 21) = 2" by (simp add: new_blocks)
  from r(3) have b: "21 \<in> live s2 \<and> refcount (descs s2 21) = 1" by (simp add: new_blocks)
  from a b r(2,4,5) alloc_k_four show ?thesis by (simp add: k_fresh_fields)
qed


text \<open>
  Claim C5 does not hold of \<open>msi_free_vectors\<close>. After \<open>msi_alloc_vectors\<close> for one vector
  on the fresh registry, the descriptor at address 20 is live with reference count 2.
  \<open>msi_free_vectors\<close> returns, the descriptor is no longer live, and its reference count
  is still 2: it was destroyed without its count having been decremented at all.
\<close>

theorem msi_free_vectors_frees_referenced_descriptor:
  "msi_alloc_vectors env_good 1 1 1 0 k_fresh = Some (Inr 1, k_one) \<and>
   20 \<in> live k_one \<and> refcount (descs k_one 20) = 2 \<and>
   msi_free_vectors 1 k_one \<noteq> None \<and>
   20 \<notin> live (the (msi_free_vectors 1 k_one)) \<and>
   refcount (descs (the (msi_free_vectors 1 k_one)) 20) = 2"
proof -
  from k_one_facts(1) have l: "20 \<in> live k_one" by (simp add: registry_inv_def)
  from registry_inv_free[OF k_one_facts(1)] obtain s' where
    "msi_free_vectors 1 k_one = Some s'" "live s' = live k_one - set [20]" "descs s' = descs k_one"
    by blast
  with l k_one_facts(3) alloc_k_one show ?thesis by simp
qed

lemma k_manual_fields:
  "heads k_manual 10 = \<lparr>list_next = 20, list_prev = 20\<rparr>"
  "heads k_manual 20 = \<lparr>list_next = 10, list_prev = 10\<rparr>"
  "descs k_manual 20 = \<lparr>dev = 1, hwirq = 0, irq = 0, msi_attrib = 0, multiple = 0, refcount = 2\<rparr>"
  "regs k_manual 10 = \<lparr>num_vectors = 1\<rparr>"
  "devs k_manual = devs k_fresh"
  "live k_manual = {10, 20}"
  "domains k_manual = domains k_fresh"
  "virqs k_manual = Map.empty"
  by (simp_all add: k_manual_def msi_desc_list_add_def msi_desc_list_add_locked_def
      msi_desc_alloc_def msi_desc_alloc_internal_def multiple_loop.simps MSI_MAX_VECTORS_def
      kmalloc_desc_def desc_zero_def set_list_next_def set_list_prev_def set_refcount_def
      set_dev_def set_multiple_def set_num_vectors_def Let_def
      k_fresh_def k_boot_def msi_device_init_def kmalloc_msi_data_def set_msi_data_def insert_commute)

lemma env_clash_fields:
  "env_hwirq_base env_clash n = Some 0" "env_kmalloc env_clash 0 = 30" "env_kmalloc env_clash (Suc 0) = 31"
  "env_virq env_clash 0 = 200" "env_virq env_clash (Suc 0) = 0"
  by (simp_all add: env_clash_def)

lemma clash_run:
  "\<exists>s'. msi_alloc_vectors env_clash 1 2 2 0 k_manual = Some (Inl Mapping_failed, s') \<and>
     heads s' 10 = \<lparr>list_next = 30, list_prev = 30\<rparr> \<and>
     heads s' 30 = \<lparr>list_next = 10, list_prev = 10\<rparr> \<and>
     num_vectors (regs s' 10) = 1 \<and> live s' = {10, 30} \<and>
     virqs s' 200 = Some (3, 0) \<and> hwirq (descs s' 30) = 0 \<and> irq (descs s' 30) = 200 \<and>
     reserved (domains s' 3) = {}"
proof -
  define s0 where "s0 = irq_domain_reserve 3 0 2 k_manual"
  define s1 where "s1 = iter_state env_clash 1 10 0 0 0 s0"
  define s2 where "s2 = iter_fail_state env_clash 1 0 0 1 s1"
  define s3 where "s3 = kfree 20 (set_num_vectors 10 (num_vectors (regs (list_unlink 20 (irq_dispose_mapping 0 s2)) 10) - 1)
                (list_unlink 20 (irq_dispose_mapping 0 s2)))"
  have pre: "(1::addr) \<noteq> 0" "msi_data (devs k_manual 1) \<noteq> 0" "device.msi_domain (devs k_manual 1) \<noteq> 0"
    "(2::u32) \<noteq> 0" "(2::u32) \<le> 2" "(2::u32) \<le> 32"
    by (simp_all add: k_manual_fields k_fresh_fields)
  have md: "msi_data (devs k_manual 1) = 10" "device.msi_domain (devs k_manual 1) = 3"
    by (simp_all add: k_manual_fields k_fresh_fields)
  have sel: "select_nvec 2 = 2" "unat (2::u32) = 2" by (simp_all add: select_nvec_def)
  have unf: "msi_alloc_vectors env_clash 1 2 2 0 k_manual =
      (case populate env_clash 1 10 0 0 2 0 s0 of
         Inr s1 \<Rightarrow> Some (Inr 2, s1)
       | Inl (e, i, s1) \<Rightarrow>
           (case cleanup_loop 10 0 i s1 of
              None \<Rightarrow> None
            | Some s2 \<Rightarrow> Some (Inl e, irq_domain_free_hwirq_range (device.msi_domain (devs s2 1)) 0 2 s2)))"
    using alloc_unfold[OF pre, of env_clash 0, unfolded md sel]
    by (simp add: env_clash_fields s0_def)
  have p0: "populate env_clash 1 10 0 0 2 0 s0 = populate env_clash 1 10 0 0 2 (0 + 1) s1"
    unfolding s1_def by (rule populate_step_ok) (simp_all add: env_clash_fields)
  have p1: "populate env_clash 1 10 0 0 2 1 s1 = Inl (Mapping_failed, 1, s2)"
    unfolding s2_def by (rule populate_step_nomap) (simp_all add: env_clash_fields)
  have pop: "populate env_clash 1 10 0 0 2 0 s0 = Inl (Mapping_failed, 1, s2)"
    using p0 p1 by simp
  have f0: "heads s0 = heads k_manual" "descs s0 = descs k_manual" "regs s0 = regs k_manual"
    "live s0 = live k_manual" "virqs s0 = virqs k_manual" "devs s0 = devs k_manual"
    "reserved (domains s0 3) = hwirq_range 0 2"
    by (simp_all add: s0_def irq_domain_reserve_def k_manual_fields k_fresh_fields)
  have f1: "heads s1 10 = \<lparr>list_next = 20, list_prev = 30\<rparr>"
    "heads s1 20 = \<lparr>list_next = 30, list_prev = 10\<rparr>"
    "heads s1 30 = \<lparr>list_next = 10, list_prev = 20\<rparr>"
    "descs s1 20 = \<lparr>dev = 1, hwirq = 0, irq = 0, msi_attrib = 0, multiple = 0, refcount = 2\<rparr>"
    "descs s1 30 = \<lparr>dev = 1, hwirq = 0, irq = 200, msi_attrib = 0, multiple = 0, refcount = 2\<rparr>"
    "regs s1 10 = \<lparr>num_vectors = 2\<rparr>"
    "virqs s1 = [200 \<mapsto> (3, 0)]"
    "devs s1 = devs k_fresh"
    "reserved (domains s1 3) = hwirq_range 0 2"
    by (simp_all add: s1_def iter_state_def
        msi_desc_alloc_internal_def msi_desc_list_add_locked_def irq_create_mapping_def
        kmalloc_desc_def desc_zero_def set_list_next_def set_list_prev_def set_refcount_def
        set_dev_def set_hwirq_def set_irq_def set_msi_attrib_def set_num_vectors_def Let_def
        env_clash_fields f0 k_manual_fields k_fresh_fields)
  have l1: "live s1 = {10, 20, 30}"
    by (auto simp add: s1_def iter_state_def
        msi_desc_alloc_internal_def msi_desc_list_add_locked_def irq_create_mapping_def
        kmalloc_desc_def set_list_next_def set_list_prev_def set_refcount_def
        set_dev_def set_hwirq_def set_irq_def set_msi_attrib_def set_num_vectors_def Let_def
        env_clash_fields f0 k_manual_fields)
  have f2: "heads s2 10 = \<lparr>list_next = 20, list_prev = 30\<rparr>"
    "heads s2 20 = \<lparr>list_next = 30, list_prev = 10\<rparr>"
    "heads s2 30 = \<lparr>list_next = 10, list_prev = 20\<rparr>"
    "descs s2 20 = \<lparr>dev = 1, hwirq = 0, irq = 0, msi_attrib = 0, multiple = 0, refcount = 2\<rparr>"
    "descs s2 30 = \<lparr>dev = 1, hwirq = 0, irq = 200, msi_attrib = 0, multiple = 0, refcount = 2\<rparr>"
    "regs s2 10 = \<lparr>num_vectors = 2\<rparr>"
    "virqs s2 = [200 \<mapsto> (3, 0)]"
    "devs s2 = devs k_fresh"
    "reserved (domains s2 3) = hwirq_range 0 2"
    by (simp_all add: s2_def iter_fail_state_def
        msi_desc_alloc_internal_def
        kmalloc_desc_def kfree_def desc_zero_def set_list_next_def set_list_prev_def set_refcount_def
        set_dev_def set_hwirq_def set_irq_def set_msi_attrib_def Let_def
        env_clash_fields f1)
  have l2: "live s2 = {10, 20, 30}"
    by (auto simp add: s2_def iter_fail_state_def
        msi_desc_alloc_internal_def
        kmalloc_desc_def kfree_def set_list_next_def set_list_prev_def set_refcount_def
        set_dev_def set_hwirq_def set_irq_def set_msi_attrib_def Let_def
        env_clash_fields l1)
  have find: "cleanup_find 10 0 20 s2 = Some s3"
    by (subst cleanup_find.simps) (simp add: f2 Let_def s3_def)
  have loop: "cleanup_loop 10 0 1 s2 = Some s3"
    using find by (simp add: f2)
  have f3: "heads s3 10 = \<lparr>list_next = 30, list_prev = 30\<rparr>"
    "heads s3 30 = \<lparr>list_next = 10, list_prev = 10\<rparr>"
    "regs s3 10 = \<lparr>num_vectors = 1\<rparr>"
    "virqs s3 200 = Some (3, 0)"
    "descs s3 30 = \<lparr>dev = 1, hwirq = 0, irq = 200, msi_attrib = 0, multiple = 0, refcount = 2\<rparr>"
    "devs s3 = devs k_fresh"
    "reserved (domains s3 3) = hwirq_range 0 2"
    by (simp_all add: s3_def kfree_def set_num_vectors_def list_unlink_def set_list_next_def set_list_prev_def
        irq_dispose_mapping_def Let_def f2)
  have l3: "live s3 = {10, 30}"
    by (auto simp add: s3_def kfree_def set_num_vectors_def list_unlink_def set_list_next_def set_list_prev_def
        irq_dispose_mapping_def Let_def l2)
  have run: "msi_alloc_vectors env_clash 1 2 2 0 k_manual =
      Some (Inl Mapping_failed, irq_domain_free_hwirq_range 3 0 2 s3)"
    unfolding unf pop using loop by (simp add: f3 k_fresh_fields)
  show ?thesis
    unfolding run by (simp add: irq_domain_free_hwirq_range_def f3 l3)
qed

lemma env_clash_ok: "env_ok env_clash k_manual 1"
  by (auto simp add: env_ok_def env_clash_def k_manual_fields k_fresh_fields)

text \<open>
  Claim C1 is not what \<open>msi_alloc_vectors\<close> does on every registry. The registry of
  \<open>k_manual\<close> lists descriptor 20, made with \<open>msi_desc_alloc\<close> and linked with
  \<open>msi_desc_list_add\<close>; its \<open>hwirq\<close> is 0 and the domain has nothing reserved. The call
  \<open>msi_alloc_vectors(dev, 2, 2, 0)\<close> is given the range that starts at id 0 (the
  collaborators keep their contracts, \<open>env_clash_ok\<close>), links descriptor 30 with
  \<open>hwirq\<close> 0 and virq 200, and fails at the mapping of the second vector. The rollback
  looks for the first listed descriptor with \<open>hwirq\<close> 0, which is descriptor 20: it
  unlinks and frees that one, and descriptor 30 stays in the list with its mapping.
  The call returns -1 with \<open>num_vectors\<close> 1 as before, but the descriptor reachable from
  the sentinel is 30 where it was 20, block 20 is freed, and virq 200 is still mapped
  to an id that is no longer reserved.
\<close>

theorem msi_alloc_vectors_rollback_frees_other_descriptor:
  "dlist k_manual 10 [20] \<and> num_vectors (regs k_manual 10) = 1 \<and> 20 \<in> live k_manual \<and>
   hwirq (descs k_manual 20) = 0 \<and> reserved (domains k_manual 3) = {} \<and>
   msi_alloc_vectors env_clash 1 2 2 0 k_manual = Some (Inl Mapping_failed, k_clash) \<and>
   msi_return (Inl Mapping_failed) = - 1 \<and>
   dlist k_clash 10 [30] \<and> num_vectors (regs k_clash 10) = 1 \<and>
   20 \<notin> live k_clash \<and> 30 \<in> live k_clash \<and>
   hwirq (descs k_clash 30) = 0 \<and> virqs k_clash 200 = Some (3, 0) \<and>
   reserved (domains k_clash 3) = {}"
proof -
  from clash_run obtain s' where
    r: "msi_alloc_vectors env_clash 1 2 2 0 k_manual = Some (Inl Mapping_failed, s')"
       "heads s' 10 = \<lparr>list_next = 30, list_prev = 30\<rparr>"
       "heads s' 30 = \<lparr>list_next = 10, list_prev = 10\<rparr>"
       "num_vectors (regs s' 10) = 1" "live s' = {10, 30}"
       "virqs s' 200 = Some (3, 0)" "hwirq (descs s' 30) = 0" "reserved (domains s' 3) = {}"
    by blast
  from r(1) have k: "k_clash = s'" by (simp add: k_clash_def)
  have before: "dlist k_manual 10 [20]" "num_vectors (regs k_manual 10) = 1" "20 \<in> live k_manual"
    "hwirq (descs k_manual 20) = 0" "reserved (domains k_manual 3) = {}"
    by (simp_all add: dlist_def k_manual_fields k_fresh_fields)
  have after: "dlist k_clash 10 [30]" "num_vectors (regs k_clash 10) = 1"
    "20 \<notin> live k_clash" "30 \<in> live k_clash"
    "hwirq (descs k_clash 30) = 0" "virqs k_clash 200 = Some (3, 0)" "reserved (domains k_clash 3) = {}"
    unfolding k using r by (simp_all add: dlist_def)
  have ret: "msi_return (Inl Mapping_failed) = - 1" by (simp add: msi_return_def)
  from before after ret r(1) k show ?thesis by simp
qed

end
